theory Spec2Isabelle
  imports Main
begin

section \<open>Data model\<close>

text \<open>
  The program (generate_regions.py) works on pixel coordinates \<open>(x, y)\<close> and on rectangles
  \<open>(x0, y0, width, height)\<close>, both tuples of Python integers.
\<close>

type_synonym point = "int \<times> int"
type_synonym rect = "int \<times> int \<times> int \<times> int"

text \<open>The exceptions the modelled code can raise.\<close>

datatype py_error = KeyError | ValueError string | OtherError string

text \<open>\<open>range(a, b)\<close> is the list \<open>a, a + 1, ..., b - 1\<close> (empty when \<open>b \<le> a\<close>).\<close>

definition py_range :: "int \<Rightarrow> int \<Rightarrow> int list" where
  "py_range a b = [a..b - 1]"

text \<open>The coordinates a rectangle covers.\<close>

fun rect_points :: "rect \<Rightarrow> point set" where
  "rect_points (x0, y0, w, h) = {x0..<x0 + w} \<times> {y0..<y0 + h}"

fun rect_height :: "rect \<Rightarrow> int" where
  "rect_height (x0, y0, w, h) = h"

fun rect_width :: "rect \<Rightarrow> int" where
  "rect_width (x0, y0, w, h) = w"

section \<open>The mutable point set of split_into_rects\<close>

text \<open>
  The local set \<open>points\<close> is modelled by the list of its elements, in the set's internal
  iteration order. \<open>p in points\<close> is \<open>p \<in> set ps\<close>; \<open>points.remove(p)\<close> raises KeyError when
  \<open>p\<close> is absent; \<open>points.pop()\<close> raises KeyError on the empty set and otherwise removes
  and returns an arbitrary element. Which element is left open by Python: it is the one at
  the position \<open>pick ps mod length ps\<close>, for an arbitrary function \<open>pick\<close>, so that every
  result holds for every choice \<open>pop\<close> can make.
\<close>

definition set_remove :: "point \<Rightarrow> point list \<Rightarrow> py_error + point list" where
  "set_remove p ps = (if p \<in> set ps then Inr (removeAll p ps) else Inl KeyError)"

definition set_pop :: "(point list \<Rightarrow> nat) \<Rightarrow> point list \<Rightarrow> py_error + (point \<times> point list)" where
  "set_pop pick ps =
     (if ps = [] then Inl KeyError
      else (let p = ps ! (pick ps mod length ps) in Inr (p, removeAll p ps)))"

section \<open>split_into_rects\<close>

text \<open>
  \<^verbatim>\<open>while (x0 + width, y0) in points:
      points.remove((x0 + width, y0))
      width += 1\<close>
\<close>

function extend_right :: "int \<Rightarrow> int \<Rightarrow> point list \<Rightarrow> int \<Rightarrow> py_error + (point list \<times> int)" where
  "extend_right x0 y0 ps width =
     (if (x0 + width, y0) \<in> set ps
      then (case set_remove (x0 + width, y0) ps of
              Inl e \<Rightarrow> Inl e
            | Inr ps' \<Rightarrow> extend_right x0 y0 ps' (width + 1))
      else Inr (ps, width))"
  by pat_completeness auto
termination
  by (relation "measure (\<lambda>(x0, y0, ps, width). length ps)")
     (auto simp: set_remove_def length_removeAll_less split: if_splits)

declare extend_right.simps [simp del]

text \<open>
  The inner \<open>for x in range(x0, x0 + width)\<close> with its \<open>else\<close>: the \<open>else\<close> branch runs
  when the loop ended without \<open>break\<close>, that is when no \<open>(x, y)\<close> of the span is missing.
\<close>

fun span_present :: "int list \<Rightarrow> int \<Rightarrow> point list \<Rightarrow> bool" where
  "span_present [] y ps = True"
| "span_present (x # xs) y ps = (if (x, y) \<notin> set ps then False else span_present xs y ps)"

text \<open>\<open>for x in range(x0, x0 + width): points.remove((x, y))\<close>\<close>

fun remove_span :: "int list \<Rightarrow> int \<Rightarrow> point list \<Rightarrow> py_error + point list" where
  "remove_span [] y ps = Inr ps"
| "remove_span (x # xs) y ps =
     (case set_remove (x, y) ps of Inl e \<Rightarrow> Inl e | Inr ps' \<Rightarrow> remove_span xs y ps')"

text \<open>
  The loop \<open>for y in range(y0 + 1, y0 + height + 1)\<close>. Its first argument \<open>ys\<close> is the list of
  rows the \<open>range\<close> object yields: Python evaluates the \<open>range\<close> expression once, when the
  loop starts, so that the later \<open>height += 1\<close> does not change the rows visited.
  A row that is not fully present ends the loop (\<open>break\<close>).
\<close>

fun extend_down :: "int \<Rightarrow> int \<Rightarrow> int list \<Rightarrow> point list \<Rightarrow> int \<Rightarrow> py_error + (point list \<times> int)" where
  "extend_down x0 width [] ps height = Inr (ps, height)"
| "extend_down x0 width (y # ys) ps height =
     (if span_present (py_range x0 (x0 + width)) y ps
      then (case remove_span (py_range x0 (x0 + width)) y ps of
              Inl e \<Rightarrow> Inl e
            | Inr ps' \<Rightarrow> extend_down x0 width ys ps' (height + 1))
      else Inr (ps, height))"

text \<open>One iteration of \<open>while points:\<close>, from the \<open>pop\<close> to the rectangle it appends.\<close>

definition split_body :: "(point list \<Rightarrow> nat) \<Rightarrow> point list \<Rightarrow> py_error + (rect \<times> point list)" where
  "split_body pick ps =
     (case set_pop pick ps of
        Inl e \<Rightarrow> Inl e
      | Inr ((x0, y0), ps1) \<Rightarrow>
          (case extend_right x0 y0 ps1 1 of
             Inl e \<Rightarrow> Inl e
           | Inr (ps2, width) \<Rightarrow>
               (let height = 1 in
                case extend_down x0 width (py_range (y0 + 1) (y0 + height + 1)) ps2 height of
                  Inl e \<Rightarrow> Inl e
                | Inr (ps3, height') \<Rightarrow> Inr ((x0, y0, width, height'), ps3))))"

subsection \<open>The loops never lengthen the point list\<close>

lemma set_remove_length:
  "set_remove p ps = Inr ps' \<Longrightarrow> length ps' < length ps"
  by (auto simp: set_remove_def length_removeAll_less split: if_splits)

lemma extend_right_length:
  "extend_right x0 y0 ps w = Inr (ps', w') \<Longrightarrow> length ps' \<le> length ps"
proof (induction x0 y0 ps w rule: extend_right.induct)
  case (1 x0 y0 ps width)
  show ?case
  proof (cases "(x0 + width, y0) \<in> set ps")
    case True
    then obtain ps1 where r: "set_remove (x0 + width, y0) ps = Inr ps1"
      by (simp add: set_remove_def)
    with True "1.prems" have "extend_right x0 y0 ps1 (width + 1) = Inr (ps', w')"
      by (simp add: extend_right.simps [of x0 y0 ps width])
    with "1.IH" [OF True r] have "length ps' \<le> length ps1" .
    with set_remove_length [OF r] show ?thesis by simp
  next
    case False
    with "1.prems" show ?thesis
      by (simp add: extend_right.simps [of x0 y0 ps width])
  qed
qed

lemma remove_span_length:
  "remove_span xs y ps = Inr ps' \<Longrightarrow> length ps' \<le> length ps"
proof (induction xs arbitrary: ps)
  case Nil
  then show ?case by simp
next
  case (Cons x xs)
  then show ?case
    by (fastforce split: sum.splits dest: set_remove_length)
qed

lemma extend_down_length:
  "extend_down x0 w ys ps h = Inr (ps', h') \<Longrightarrow> length ps' \<le> length ps"
proof (induction ys arbitrary: ps h)
  case Nil
  then show ?case by simp
next
  case (Cons y ys)
  then show ?case
    by (fastforce split: sum.splits if_splits dest: remove_span_length)
qed

lemma set_pop_length:
  "set_pop pick ps = Inr (p, ps') \<Longrightarrow> length ps' < length ps"
  by (auto simp: set_pop_def Let_def length_removeAll_less split: if_splits)

lemma split_body_length:
  assumes "split_body pick ps = Inr (r, ps')"
  shows "length ps' < length ps"
proof -
  from assms obtain x0 y0 ps1 ps2 w h where
    a: "set_pop pick ps = Inr ((x0, y0), ps1)" and
    b: "extend_right x0 y0 ps1 1 = Inr (ps2, w)" and
    c: "extend_down x0 w (py_range (y0 + 1) (y0 + 1 + 1)) ps2 1 = Inr (ps', h)"
    by (auto simp: split_body_def split: sum.splits prod.splits)
  from set_pop_length [OF a] extend_right_length [OF b] extend_down_length [OF c]
  show ?thesis by simp
qed

text \<open>
  \<^verbatim>\<open>while points:
      ...
      rects.append((x0, y0, width, height))
  return rects\<close>
\<close>

function split_loop :: "(point list \<Rightarrow> nat) \<Rightarrow> point list \<Rightarrow> rect list \<Rightarrow> py_error + rect list" where
  "split_loop pick ps rects =
     (if ps \<noteq> []
      then (case split_body pick ps of
              Inl e \<Rightarrow> Inl e
            | Inr (r, ps') \<Rightarrow> split_loop pick ps' (rects @ [r]))
      else Inr rects)"
  by pat_completeness auto
termination
  by (relation "measure (\<lambda>(pick, ps, rects). length ps)")
     (auto dest: split_body_length)

declare split_loop.simps [simp del]

text \<open>\<open>points = set(points)\<close> keeps one copy of every element of the argument.\<close>

definition split_into_rects :: "(point list \<Rightarrow> nat) \<Rightarrow> point list \<Rightarrow> py_error + rect list" where
  "split_into_rects pick points = split_loop pick (remdups points) []"

text \<open>How many rectangles of a list cover a coordinate.\<close>

definition cover_count :: "rect list \<Rightarrow> point \<Rightarrow> nat" where
  "cover_count rs p = length (filter (\<lambda>r. p \<in> rect_points r) rs)"

subsection \<open>What each loop of split_into_rects does to the point set\<close>

lemma set_remove_set:
  "set_remove p ps = Inr ps' \<Longrightarrow> p \<in> set ps \<and> set ps' = set ps - {p}"
  by (auto simp: set_remove_def split: if_splits)

lemma set_remove_ok:
  "p \<in> set ps \<Longrightarrow> set_remove p ps = Inr (removeAll p ps)"
  by (simp add: set_remove_def)

lemma extend_right_spec:
  "\<exists>ps' w'. extend_right x0 y0 ps w = Inr (ps', w') \<and> w \<le> w'
     \<and> set ps' = set ps - {x0 + w..<x0 + w'} \<times> {y0}
     \<and> {x0 + w..<x0 + w'} \<times> {y0} \<subseteq> set ps"
proof (induction x0 y0 ps w rule: extend_right.induct)
  case (1 x0 y0 ps width)
  show ?case
  proof (cases "(x0 + width, y0) \<in> set ps")
    case True
    let ?ps1 = "removeAll (x0 + width, y0) ps"
    have r: "set_remove (x0 + width, y0) ps = Inr ?ps1"
      using True by (rule set_remove_ok)
    from "1.IH" [OF True r] obtain ps' w' where
      e: "extend_right x0 y0 ?ps1 (width + 1) = Inr (ps', w')" and
      w: "width + 1 \<le> w'" and
      s: "set ps' = set ?ps1 - {x0 + (width + 1)..<x0 + w'} \<times> {y0}" and
      c: "{x0 + (width + 1)..<x0 + w'} \<times> {y0} \<subseteq> set ?ps1"
      by blast
    have e': "extend_right x0 y0 ps width = Inr (ps', w')"
      using True r e by (simp add: extend_right.simps [of x0 y0 ps width])
    have i: "{x0 + width..<x0 + w'} = insert (x0 + width) {x0 + (width + 1)..<x0 + w'}"
      using w by auto
    have "set ps' = set ps - {x0 + width..<x0 + w'} \<times> {y0}"
      unfolding s i by auto
    moreover have "{x0 + width..<x0 + w'} \<times> {y0} \<subseteq> set ps"
      unfolding i using c True by auto
    ultimately show ?thesis using e' w by auto
  next
    case False
    then have "extend_right x0 y0 ps width = Inr (ps, width)"
      by (simp add: extend_right.simps [of x0 y0 ps width])
    then show ?thesis by simp
  qed
qed

lemma span_present_iff:
  "span_present xs y ps \<longleftrightarrow> (\<forall>x\<in>set xs. (x, y) \<in> set ps)"
  by (induction xs) auto

lemma remove_span_ok:
  "distinct xs \<Longrightarrow> \<forall>x\<in>set xs. (x, y) \<in> set ps \<Longrightarrow>
   \<exists>ps'. remove_span xs y ps = Inr ps' \<and> set ps' = set ps - set xs \<times> {y}"
proof (induction xs arbitrary: ps)
  case Nil
  then show ?case by simp
next
  case (Cons x xs)
  let ?ps1 = "removeAll (x, y) ps"
  have r: "set_remove (x, y) ps = Inr ?ps1"
    using Cons.prems by (simp add: set_remove_ok)
  have "\<forall>x'\<in>set xs. (x', y) \<in> set ?ps1"
    using Cons.prems by auto
  with Cons.IH [of ?ps1] Cons.prems obtain ps' where
    "remove_span xs y ?ps1 = Inr ps'" "set ps' = set ?ps1 - set xs \<times> {y}"
    by auto
  with r show ?case by auto
qed

lemma py_range_set [simp]: "set (py_range a b) = {a..<b}"
  by (auto simp: py_range_def)

lemma py_range_distinct [simp]: "distinct (py_range a b)"
  by (simp add: py_range_def)

lemma py_range_single: "py_range (a + 1) (a + 1 + 1) = [a + 1]"
proof -
  have "a + 1 + 1 - 1 = a + 1" by simp
  then show ?thesis unfolding py_range_def by (simp only: upto_single)
qed

lemma extend_down_one:
  "\<exists>ps' h. extend_down x0 w (py_range (y0 + 1) (y0 + 1 + 1)) ps 1 = Inr (ps', h)
     \<and> (h = 1 \<or> h = 2)
     \<and> set ps' = set ps - {x0..<x0 + w} \<times> {y0 + 1..<y0 + h}
     \<and> {x0..<x0 + w} \<times> {y0 + 1..<y0 + h} \<subseteq> set ps"
proof (cases "span_present (py_range x0 (x0 + w)) (y0 + 1) ps")
  case True
  then have a: "\<forall>x\<in>set (py_range x0 (x0 + w)). (x, y0 + 1) \<in> set ps"
    by (simp only: span_present_iff)
  from remove_span_ok [OF py_range_distinct a] obtain ps' where
    r: "remove_span (py_range x0 (x0 + w)) (y0 + 1) ps = Inr ps'" and
    s: "set ps' = set ps - set (py_range x0 (x0 + w)) \<times> {y0 + 1}"
    by blast
  have e: "extend_down x0 w (py_range (y0 + 1) (y0 + 1 + 1)) ps 1 = Inr (ps', 2)"
    unfolding py_range_single using True r by simp
  have i: "{y0 + 1..<y0 + 2} = {y0 + 1}" by auto
  show ?thesis using e s a by (auto simp: i)
next
  case False
  then have "extend_down x0 w (py_range (y0 + 1) (y0 + 1 + 1)) ps 1 = Inr (ps, 1)"
    unfolding py_range_single by simp
  then show ?thesis by auto
qed

lemma set_pop_spec:
  "ps \<noteq> [] \<Longrightarrow> \<exists>p. set_pop pick ps = Inr (p, removeAll p ps) \<and> p \<in> set ps"
  by (simp add: set_pop_def Let_def)

lemma split_body_spec:
  assumes "ps \<noteq> []"
  shows "\<exists>x0 y0 w h ps'. split_body pick ps = Inr ((x0, y0, w, h), ps')
     \<and> 1 \<le> w \<and> (h = 1 \<or> h = 2) \<and> (x0, y0) \<in> set ps
     \<and> rect_points (x0, y0, w, h) \<subseteq> set ps
     \<and> set ps' = set ps - rect_points (x0, y0, w, h)"
proof -
  from set_pop_spec [OF assms] obtain x0 y0 where
    a: "set_pop pick ps = Inr ((x0, y0), removeAll (x0, y0) ps)" and m: "(x0, y0) \<in> set ps"
    by (metis surj_pair)
  let ?ps1 = "removeAll (x0, y0) ps"
  from extend_right_spec [of x0 y0 ?ps1 1] obtain ps2 w where
    b: "extend_right x0 y0 ?ps1 1 = Inr (ps2, w)" and w: "1 \<le> w" and
    s2: "set ps2 = set ?ps1 - {x0 + 1..<x0 + w} \<times> {y0}" and
    c2: "{x0 + 1..<x0 + w} \<times> {y0} \<subseteq> set ?ps1"
    by blast
  from extend_down_one [of x0 w y0 ps2] obtain ps3 h where
    c: "extend_down x0 w (py_range (y0 + 1) (y0 + 1 + 1)) ps2 1 = Inr (ps3, h)" and
    h: "h = 1 \<or> h = 2" and
    s3: "set ps3 = set ps2 - {x0..<x0 + w} \<times> {y0 + 1..<y0 + h}" and
    c3: "{x0..<x0 + w} \<times> {y0 + 1..<y0 + h} \<subseteq> set ps2"
    by blast
  have e: "split_body pick ps = Inr ((x0, y0, w, h), ps3)"
    by (simp only: split_body_def a b c Let_def sum.case prod.case)
  have row: "{x0..<x0 + w} = insert x0 {x0 + 1..<x0 + w}"
    using w by auto
  have col: "{y0..<y0 + h} = insert y0 {y0 + 1..<y0 + h}"
    using h by auto
  have sub: "rect_points (x0, y0, w, h) \<subseteq> set ps"
  proof
    fix p assume "p \<in> rect_points (x0, y0, w, h)"
    then obtain x y where p: "p = (x, y)" and x: "x \<in> {x0..<x0 + w}" and y: "y \<in> {y0..<y0 + h}"
      by auto
    show "p \<in> set ps"
    proof (cases "y = y0")
      case True
      show ?thesis
      proof (cases "x = x0")
        case True
        with \<open>y = y0\<close> m p show ?thesis by simp
      next
        case False
        with x have "x \<in> {x0 + 1..<x0 + w}" by auto
        with c2 \<open>y = y0\<close> have "(x, y) \<in> set ?ps1" by blast
        with p show ?thesis by simp
      qed
    next
      case False
      with y have "y \<in> {y0 + 1..<y0 + h}" by auto
      with x c3 have "(x, y) \<in> set ps2" by blast
      with s2 p show ?thesis by auto
    qed
  qed
  have "set ps3 = set ps - rect_points (x0, y0, w, h)"
  proof -
    have "rect_points (x0, y0, w, h) =
        insert (x0, y0) ({x0 + 1..<x0 + w} \<times> {y0}) \<union> {x0..<x0 + w} \<times> {y0 + 1..<y0 + h}"
      using w h by auto
    moreover have "set ps3 = set ps - (insert (x0, y0) ({x0 + 1..<x0 + w} \<times> {y0})
         \<union> {x0..<x0 + w} \<times> {y0 + 1..<y0 + h})"
      unfolding s3 s2 by auto
    ultimately show ?thesis by simp
  qed
  with e w h m sub show ?thesis by blast
qed


subsection \<open>The loop of split_into_rects\<close>

lemma cover_count_Nil [simp]: "cover_count [] p = 0"
  by (simp add: cover_count_def)

lemma cover_count_Cons:
  "cover_count (r # rs) p = (if p \<in> rect_points r then 1 else 0) + cover_count rs p"
  by (simp add: cover_count_def)

lemma cover_count_append:
  "cover_count (rs @ rs') p = cover_count rs p + cover_count rs' p"
  by (simp add: cover_count_def)

lemma split_loop_spec:
  "\<exists>rs. split_loop pick ps acc = Inr (acc @ rs)
     \<and> length rs \<le> card (set ps)
     \<and> (\<forall>p. cover_count rs p = (if p \<in> set ps then 1 else 0))
     \<and> (\<forall>r\<in>set rs. 1 \<le> rect_width r \<and> 1 \<le> rect_height r \<and> rect_height r \<le> 2)"
proof (induction pick ps acc rule: split_loop.induct)
  case (1 pick ps rects)
  show ?case
  proof (cases "ps = []")
    case True
    then have "split_loop pick ps rects = Inr (rects @ [])"
      by (subst split_loop.simps) simp
    with True show ?thesis by auto
  next
    case False
    from split_body_spec [OF False, of pick] obtain x0 y0 w h ps' where
      b: "split_body pick ps = Inr ((x0, y0, w, h), ps')" and
      w: "1 \<le> w" and h: "h = 1 \<or> h = 2" and m: "(x0, y0) \<in> set ps" and
      sub: "rect_points (x0, y0, w, h) \<subseteq> set ps" and
      s: "set ps' = set ps - rect_points (x0, y0, w, h)"
      by blast
    let ?r = "(x0, y0, w, h)"
    from "1.IH" [OF False b refl] obtain rs where
      l: "split_loop pick ps' (rects @ [?r]) = Inr ((rects @ [?r]) @ rs)" and
      n: "length rs \<le> card (set ps')" and
      c: "\<forall>p. cover_count rs p = (if p \<in> set ps' then 1 else 0)" and
      g: "\<forall>r\<in>set rs. 1 \<le> rect_width r \<and> 1 \<le> rect_height r \<and> rect_height r \<le> 2"
      by blast
    have e: "split_loop pick ps rects = Inr (rects @ (?r # rs))"
      using False b l by (simp add: split_loop.simps [of pick ps rects])
    have o: "(x0, y0) \<in> rect_points ?r"
      using w h by auto
    have "set ps' \<subset> set ps"
      using s m o by (auto simp del: rect_points.simps)
    then have "card (set ps') < card (set ps)"
      by (simp add: psubset_card_mono)
    with n have n': "length (?r # rs) \<le> card (set ps)"
      by simp
    have c': "\<forall>p. cover_count (?r # rs) p = (if p \<in> set ps then 1 else 0)"
    proof
      fix p
      from c have "cover_count rs p = (if p \<in> set ps' then 1 else 0)" ..
      then show "cover_count (?r # rs) p = (if p \<in> set ps then 1 else 0)"
        using sub s by (auto simp: cover_count_Cons simp del: rect_points.simps)
    qed
    have g': "\<forall>r\<in>set (?r # rs). 1 \<le> rect_width r \<and> 1 \<le> rect_height r \<and> rect_height r \<le> 2"
      using g w h by auto
    from e n' c' g' show ?thesis by blast
  qed
qed

lemma split_into_rects_spec:
  "\<exists>rs. split_into_rects pick points = Inr rs
     \<and> length rs \<le> card (set points)
     \<and> (\<forall>p. cover_count rs p = (if p \<in> set points then 1 else 0))
     \<and> (\<forall>r\<in>set rs. 1 \<le> rect_width r \<and> 1 \<le> rect_height r \<and> rect_height r \<le> 2)"
  using split_loop_spec [of pick "remdups points" "[]"]
  by (simp add: split_into_rects_def)

lemma filter_le_one_nth:
  "length (filter P xs) \<le> 1 \<Longrightarrow> i < j \<Longrightarrow> j < length xs \<Longrightarrow> P (xs ! i) \<Longrightarrow> \<not> P (xs ! j)"
proof (induction xs arbitrary: i j)
  case Nil
  then show ?case by simp
next
  case (Cons x xs)
  obtain j' where j: "j = Suc j'" using Cons.prems(2) by (cases j) auto
  show ?case
  proof (cases i)
    case 0
    with Cons.prems have "P x" by simp
    with Cons.prems(1) have "filter P xs = []" by simp
    moreover have "xs ! j' \<in> set xs" using Cons.prems(3) j by simp
    ultimately have "\<not> P (xs ! j')" by (simp add: filter_empty_conv)
    with j show ?thesis by simp
  next
    case (Suc i')
    have "length (filter P xs) \<le> 1" using Cons.prems(1) by (simp split: if_splits)
    from Cons.IH [OF this, of i' j'] Cons.prems Suc j show ?thesis by simp
  qed
qed

lemma cover_count_disjoint:
  assumes "\<forall>p. cover_count rs p \<le> 1" "i < length rs" "j < length rs" "i \<noteq> j"
  shows "rect_points (rs ! i) \<inter> rect_points (rs ! j) = {}"
proof (rule ccontr)
  assume "rect_points (rs ! i) \<inter> rect_points (rs ! j) \<noteq> {}"
  then obtain p where p: "p \<in> rect_points (rs ! i)" "p \<in> rect_points (rs ! j)" by blast
  have l: "length (filter (\<lambda>r. p \<in> rect_points r) rs) \<le> 1"
    using spec [OF assms(1), of p] unfolding cover_count_def .
  show False
  proof (cases "i < j")
    case True
    from filter_le_one_nth [OF l True assms(3)] p show False by simp
  next
    case False
    with assms(4) have "j < i" by simp
    from filter_le_one_nth [OF l this assms(2)] p show False by simp
  qed
qed

lemma cover_count_pos_iff:
  "0 < cover_count rs p \<longleftrightarrow> p \<in> (\<Union>r\<in>set rs. rect_points r)"
  by (auto simp: cover_count_def filter_empty_conv simp del: rect_points.simps)


section \<open>Images\<close>

text \<open>
  What the program reads from a PIL image: \<open>img.size\<close>, the pair (width, height), and the
  pixel access object \<open>img.load()\<close>, indexed by \<open>[x, y]\<close>. The colour type is left open
  (an index or an RGB tuple); the program only compares colours and uses them as keys.
\<close>

record 'c image =
  img_size :: "int \<times> int"
  img_pixels :: "point \<Rightarrow> 'c"

text \<open>The coordinates of the pixel grid.\<close>

definition grid :: "'c image \<Rightarrow> point set" where
  "grid img = {0..<fst (img_size img)} \<times> {0..<snd (img_size img)}"

section \<open>flood_fill\<close>

text \<open>The four neighbours pushed by \<open>queue.extend\<close>, in the order of the source.\<close>

fun neighbours :: "point \<Rightarrow> point list" where
  "neighbours (x, y) = [(x + 1, y), (x - 1, y), (x, y + 1), (x, y - 1)]"

lemma finite_grid: "finite (grid img)"
  by (simp add: grid_def)

lemma visit_card:
  fixes x y width height :: int
  assumes "\<not> (x < 0 \<or> y < 0 \<or> x \<ge> width \<or> y \<ge> height)" "(x, y) \<notin> visited"
  shows "card ({0..<width} \<times> {0..<height} - insert (x, y) visited)
       < card ({0..<width} \<times> {0..<height} - visited)"
proof -
  let ?G = "{0..<width} \<times> {0..<height}"
  have "?G - insert (x, y) visited = (?G - visited) - {(x, y)}"
    by auto
  moreover have "(x, y) \<in> ?G - visited"
    using assms by auto
  then have "card ((?G - visited) - {(x, y)}) < card (?G - visited)"
    by (intro card_Diff1_less) auto
  ultimately show ?thesis by simp
qed

text \<open>
  The loop \<open>while queue:\<close> of flood_fill, with the locals \<open>pixels\<close>, \<open>width\<close> and
  \<open>height\<close> set before it. The deque is a list, \<open>popleft\<close> takes its head and \<open>extend\<close>
  appends; \<open>visited\<close> is the set shared with the caller, returned updated.
\<close>

function flood_loop ::
  "(point \<Rightarrow> 'c) \<Rightarrow> int \<Rightarrow> int \<Rightarrow> 'c \<Rightarrow> point list \<Rightarrow> point set \<Rightarrow> point list
     \<Rightarrow> point list \<times> point set" where
  "flood_loop pixels width height color [] visited region_points = (region_points, visited)"
| "flood_loop pixels width height color ((x, y) # queue) visited region_points =
     (if (x, y) \<in> visited then flood_loop pixels width height color queue visited region_points
      else if x < 0 \<or> y < 0 \<or> x \<ge> width \<or> y \<ge> height
        then flood_loop pixels width height color queue visited region_points
      else if pixels (x, y) \<noteq> color
        then flood_loop pixels width height color queue visited region_points
      else flood_loop pixels width height color
             (queue @ [(x + 1, y), (x - 1, y), (x, y + 1), (x, y - 1)])
             (insert (x, y) visited) (region_points @ [(x, y)]))"
  by pat_completeness auto
termination
  by (relation "(\<lambda>(pixels, width, height, color, queue, visited, rp).
                    card ({0..<width} \<times> {0..<height} - visited)) <*mlex*>
                 measure (\<lambda>(pixels, width, height, color, queue, visited, rp). length queue)")
     (auto simp: wf_mlex mlex_leq intro!: mlex_less visit_card)

declare flood_loop.simps(2) [simp del]

definition flood_fill ::
  "'c image \<Rightarrow> int \<Rightarrow> int \<Rightarrow> 'c \<Rightarrow> point set \<Rightarrow> point list \<times> point set" where
  "flood_fill img start_x start_y color visited =
     (case img_size img of (width, height) \<Rightarrow>
        flood_loop (img_pixels img) width height color [(start_x, start_y)] visited [])"

section \<open>find_color_regions\<close>

text \<open>
  The dictionary \<open>regions\<close> maps a colour to the list of its regions. Python dictionaries
  keep their keys in insertion order, which \<open>regions.items()\<close> later exposes, so the
  dictionary is an association list with distinct keys: assigning to a key that is
  present replaces its value in place, assigning to a new key appends the entry.
\<close>

fun dict_set :: "('k \<times> 'v) list \<Rightarrow> 'k \<Rightarrow> 'v \<Rightarrow> ('k \<times> 'v) list" where
  "dict_set [] k v = [(k, v)]"
| "dict_set ((k', v') # d) k v =
     (if k' = k then (k', v) # d else (k', v') # dict_set d k v)"

text \<open>
  \<^verbatim>\<open>if color not in regions:
      regions[color] = []
  regions[color].append(region_points)\<close>
\<close>

definition dict_append :: "('k \<times> 'v list) list \<Rightarrow> 'k \<Rightarrow> 'v \<Rightarrow> ('k \<times> 'v list) list" where
  "dict_append regions color region_points =
     (case map_of regions color of
        None \<Rightarrow> dict_set regions color ([] @ [region_points])
      | Some l \<Rightarrow> dict_set regions color (l @ [region_points]))"

text \<open>The body of the two nested \<open>for\<close> loops, on the state \<open>(regions, visited)\<close>.\<close>

definition scan_pixel ::
  "'c image \<Rightarrow> point \<Rightarrow> ('c \<times> point list list) list \<times> point set
     \<Rightarrow> ('c \<times> point list list) list \<times> point set" where
  "scan_pixel img p st =
     (case (p, st) of ((x, y), (regions, visited)) \<Rightarrow>
        (let color = img_pixels img (x, y) in
         if (x, y) \<notin> visited
         then (case flood_fill img x y color visited of
                 (region_points, visited') \<Rightarrow>
                   (dict_append regions color region_points, visited'))
         else (regions, visited)))"

definition find_color_regions :: "'c image \<Rightarrow> ('c \<times> point list list) list" where
  "find_color_regions img =
     (case img_size img of (width, height) \<Rightarrow>
        fst (fold (\<lambda>y. fold (\<lambda>x. scan_pixel img (x, y)) (py_range 0 width))
               (py_range 0 height) ([], {})))"

section \<open>create_rects\<close>

text \<open>
  The inner loop \<open>for points in region_list: rects[color].extend(split_into_rects(points))\<close>,
  on the list stored under \<open>rects[color]\<close>. An exception of split_into_rects ends the run.
\<close>

fun extend_rects ::
  "(point list \<Rightarrow> nat) \<Rightarrow> point list list \<Rightarrow> rect list \<Rightarrow> py_error + rect list" where
  "extend_rects pick [] rect_list = Inr rect_list"
| "extend_rects pick (points # region_list) rect_list =
     (case split_into_rects pick points of
        Inl e \<Rightarrow> Inl e
      | Inr rs \<Rightarrow> extend_rects pick region_list (rect_list @ rs))"

text \<open>
  The loop \<open>for color, region_list in regions.items()\<close>: \<open>rects[color] = []\<close> enters the
  colour into the dictionary \<open>rects\<close> and the inner loop fills its list.
\<close>

fun create_rects_loop ::
  "(point list \<Rightarrow> nat) \<Rightarrow> ('c \<times> point list list) list \<Rightarrow> ('c \<times> rect list) list
     \<Rightarrow> py_error + ('c \<times> rect list) list" where
  "create_rects_loop pick [] rects = Inr rects"
| "create_rects_loop pick ((color, region_list) # regions) rects =
     (case extend_rects pick region_list [] of
        Inl e \<Rightarrow> Inl e
      | Inr rect_list \<Rightarrow> create_rects_loop pick regions (dict_set rects color rect_list))"

definition create_rects ::
  "(point list \<Rightarrow> nat) \<Rightarrow> ('c \<times> point list list) list \<Rightarrow> py_error + ('c \<times> rect list) list" where
  "create_rects pick regions = create_rects_loop pick regions []"

section \<open>generate_xml\<close>

text \<open>\<open>str(n)\<close> for a Python integer: decimal digits, with a minus sign when negative.\<close>

definition digit_char :: "nat \<Rightarrow> char" where
  "digit_char d = char_of (48 + d)"

fun str_nat :: "nat \<Rightarrow> string" where
  "str_nat n = (if n < 10 then [digit_char n] else str_nat (n div 10) @ [digit_char (n mod 10)])"

declare str_nat.simps [simp del]

definition str_int :: "int \<Rightarrow> string" where
  "str_int i = (if i < 0 then CHR ''-'' # str_nat (nat (- i)) else str_nat (nat i))"

text \<open>
  The \<open>region\<close> element that generate_xml adds to the facet for one entry of \<open>rects\<close>: its
  \<open>name\<close> attribute, the \<open>name\<close> of its \<open>rune\<close> child, and one \<open>rect\<close> child per rectangle
  with the attributes \<open>x\<close>, \<open>y\<close>, \<open>width\<close>, \<open>height\<close>.
\<close>

record region_element =
  region_name :: string
  rune_name :: string
  region_rects :: "rect list"

text \<open>
  \<^verbatim>\<open>for idx, (color, rect_list) in enumerate(rects.items(), start=1):
      region_name = f"Region_{idx}"
      ...\<close>
\<close>

fun region_elements :: "nat \<Rightarrow> ('c \<times> rect list) list \<Rightarrow> region_element list" where
  "region_elements idx [] = []"
| "region_elements idx ((color, rect_list) # rects) =
     \<lparr>region_name = ''Region_'' @ str_nat idx, rune_name = ''Region_'' @ str_nat idx,
      region_rects = rect_list\<rparr> # region_elements (idx + 1) rects"

text \<open>
  The output of the run: the files written and the lines printed. generate_xml writes the
  pretty-printed document to \<open>output_file\<close>; the serialisation of the element tree
  (ElementTree and minidom) is the parameter \<open>prettify_xml\<close>.
\<close>

record world =
  files :: "string \<rightharpoonup> string"
  stdout :: "string list"

definition generate_xml ::
  "(region_element list \<Rightarrow> string) \<Rightarrow> ('c \<times> rect list) list \<Rightarrow> string \<Rightarrow> world \<Rightarrow> world" where
  "generate_xml prettify_xml rects output_file w =
     w\<lparr>files := (files w)(output_file \<mapsto> prettify_xml (region_elements 1 rects))\<rparr>"

section \<open>load_bmp and main\<close>

text \<open>\<open>str(e)\<close> of an exception is its message; \<open>str\<close> of the pair \<open>img.size\<close>.\<close>

fun str_error :: "py_error \<Rightarrow> string" where
  "str_error KeyError = ''''"
| "str_error (ValueError msg) = msg"
| "str_error (OtherError msg) = msg"

definition str_size :: "int \<times> int \<Rightarrow> string" where
  "str_size s = ''('' @ str_int (fst s) @ '', '' @ str_int (snd s) @ '')''"

text \<open>
  The \<open>try\<close> block of load_bmp. \<open>Image.open\<close> is the parameter \<open>image_open\<close>: it returns the
  image or raises one of the exceptions of \<open>py_error\<close> (all of them subclasses of
  \<open>Exception\<close>; \<open>OtherError\<close> stands for whatever the imaging library raises).
\<close>

definition load_bmp_try :: "(string \<Rightarrow> py_error + 'c image) \<Rightarrow> string \<Rightarrow> py_error + 'c image" where
  "load_bmp_try image_open file_path =
     (case image_open file_path of
        Inl e \<Rightarrow> Inl e
      | Inr img \<Rightarrow>
          if img_size img \<noteq> (6144, 4096)
          then Inl (ValueError (''Image dimensions are '' @ str_size (img_size img)
                      @ '', but expected 6144x4096.''))
          else Inr img)"

text \<open>
  load_bmp: \<open>except Exception as e\<close> catches what the \<open>try\<close> block raised, prints a line
  and returns \<open>None\<close>. The result is a sum so that an exception leaving load_bmp would be
  a value \<open>Inl\<close>.
\<close>

definition load_bmp ::
  "(string \<Rightarrow> py_error + 'c image) \<Rightarrow> string \<Rightarrow> world \<Rightarrow> py_error + ('c image option \<times> world)" where
  "load_bmp image_open file_path w =
     (case load_bmp_try image_open file_path of
        Inr img \<Rightarrow> Inr (Some img, w)
      | Inl e \<Rightarrow> Inr (None, w\<lparr>stdout := stdout w @ [''Error loading image: '' @ str_error e]\<rparr>))"

definition main ::
  "(string \<Rightarrow> py_error + 'c image) \<Rightarrow> (region_element list \<Rightarrow> string) \<Rightarrow> (point list \<Rightarrow> nat)
     \<Rightarrow> string \<Rightarrow> string \<Rightarrow> world \<Rightarrow> py_error + world" where
  "main image_open prettify_xml pick bmp_file output_file w =
     (case load_bmp image_open bmp_file w of
        Inl e \<Rightarrow> Inl e
      | Inr (None, w1) \<Rightarrow> Inr w1
      | Inr (Some img, w1) \<Rightarrow>
          (let regions = find_color_regions img in
           case create_rects pick regions of
             Inl e \<Rightarrow> Inl e
           | Inr rects \<Rightarrow>
               (let w2 = generate_xml prettify_xml rects output_file w1 in
                Inr (w2\<lparr>stdout := stdout w2
                       @ [''Regions.xml generated successfully at '' @ output_file]\<rparr>))))"

section \<open>Connected components and the correctness of flood_fill\<close>

text \<open>
  Two pixels of the grid are linked when they are 4-adjacent and have the same colour.
  The component of a pixel is everything that links reach from it.
\<close>

definition same_color_step :: "'c image \<Rightarrow> (point \<times> point) set" where
  "same_color_step img =
     {(p, q). p \<in> grid img \<and> q \<in> grid img \<and> q \<in> set (neighbours p)
        \<and> img_pixels img p = img_pixels img q}"

definition component :: "'c image \<Rightarrow> point \<Rightarrow> point set" where
  "component img p = {q. (p, q) \<in> (same_color_step img)\<^sup>*}"

text \<open>\<open>q\<close> is reached from \<open>p\<close> by 4-adjacent steps that stay inside \<open>S\<close>.\<close>

definition connected_in :: "point set \<Rightarrow> point \<Rightarrow> point \<Rightarrow> bool" where
  "connected_in S p q \<longleftrightarrow> (p, q) \<in> {(a, b). a \<in> S \<and> b \<in> S \<and> b \<in> set (neighbours a)}\<^sup>*"

lemma neighbours_sym: "q \<in> set (neighbours p) \<Longrightarrow> p \<in> set (neighbours q)"
  by (cases p; cases q) auto

lemma same_color_step_sym: "(p, q) \<in> same_color_step img \<Longrightarrow> (q, p) \<in> same_color_step img"
  by (auto simp: same_color_step_def dest: neighbours_sym simp del: neighbours.simps)

lemma component_refl: "p \<in> component img p"
  by (simp add: component_def)

lemma component_step:
  "p \<in> component img s \<Longrightarrow> (p, q) \<in> same_color_step img \<Longrightarrow> q \<in> component img s"
  by (auto simp: component_def intro: rtrancl_into_rtrancl)

lemma component_color:
  assumes "q \<in> component img s" "s \<in> grid img"
  shows "q \<in> grid img \<and> img_pixels img q = img_pixels img s"
proof -
  from assms(1) have "(s, q) \<in> (same_color_step img)\<^sup>*"
    by (simp add: component_def)
  then show ?thesis
    by (induction rule: rtrancl_induct) (auto simp: same_color_step_def assms(2))
qed

lemma component_closed:
  assumes "s \<in> A" "\<forall>p\<in>A. \<forall>q. (p, q) \<in> same_color_step img \<longrightarrow> q \<in> A"
  shows "component img s \<subseteq> A"
proof
  fix q assume "q \<in> component img s"
  then have "(s, q) \<in> (same_color_step img)\<^sup>*"
    by (simp add: component_def)
  then show "q \<in> A"
    by (induction rule: rtrancl_induct) (use assms in blast)+
qed

lemma component_sym:
  assumes "q \<in> component img s"
  shows "s \<in> component img q"
proof -
  have "sym (same_color_step img)"
    by (auto intro: symI same_color_step_sym)
  then have "sym ((same_color_step img)\<^sup>*)"
    by (rule sym_rtrancl)
  with assms show ?thesis
    by (auto simp: component_def dest: symD)
qed

lemma component_trans:
  "q \<in> component img s \<Longrightarrow> r \<in> component img q \<Longrightarrow> r \<in> component img s"
  by (auto simp: component_def)

lemma component_eq:
  assumes "q \<in> component img s"
  shows "component img q = component img s"
  using assms component_sym [OF assms] by (blast intro: component_trans)

text \<open>
  The invariant of the loop of flood_fill started at \<open>s\<close> with the visited set \<open>V0\<close>:
  the region so far lies in the component of \<open>s\<close>, every neighbour of a recorded pixel
  that belongs to the component is recorded or still queued, and every queued pixel is
  \<open>s\<close> or a neighbour of a recorded pixel.
\<close>

definition flood_inv ::
  "'c image \<Rightarrow> point \<Rightarrow> point set \<Rightarrow> point list \<Rightarrow> point set \<Rightarrow> point list \<Rightarrow> bool" where
  "flood_inv img s V0 queue visited rp \<longleftrightarrow>
     visited = V0 \<union> set rp \<and> set rp \<subseteq> component img s \<and> distinct rp
     \<and> (\<forall>p\<in>set rp. \<forall>q\<in>set (neighbours p). q \<in> component img s \<longrightarrow> q \<in> set rp \<or> q \<in> set queue)
     \<and> (s \<in> set rp \<or> s \<in> set queue)
     \<and> (\<forall>q\<in>set queue. q = s \<or> (\<exists>p\<in>set rp. q \<in> set (neighbours p)))"

lemma flood_inv_skip:
  assumes inv: "flood_inv img s V0 (p # queue) visited rp"
    and skip: "p \<in> visited \<or> p \<notin> component img s"
    and dis: "V0 \<inter> component img s = {}"
  shows "flood_inv img s V0 queue visited rp"
proof -
  have m: "p \<in> component img s \<Longrightarrow> p \<in> set rp"
    using inv skip dis by (auto simp: flood_inv_def)
  have s: "s \<in> component img s" by (rule component_refl)
  show ?thesis
    unfolding flood_inv_def
  proof (intro conjI)
    show "visited = V0 \<union> set rp" "set rp \<subseteq> component img s" "distinct rp"
      using inv by (auto simp: flood_inv_def)
    show "\<forall>a\<in>set rp. \<forall>q\<in>set (neighbours a). q \<in> component img s \<longrightarrow> q \<in> set rp \<or> q \<in> set queue"
    proof (intro ballI impI)
      fix a q assume a: "a \<in> set rp" "q \<in> set (neighbours a)" "q \<in> component img s"
      with inv have "q \<in> set rp \<or> q \<in> set (p # queue)"
        unfolding flood_inv_def by blast
      with m a(3) show "q \<in> set rp \<or> q \<in> set queue" by auto
    qed
    show "s \<in> set rp \<or> s \<in> set queue"
    proof -
      from inv have "s \<in> set rp \<or> s \<in> set (p # queue)"
        unfolding flood_inv_def by blast
      with m s show ?thesis by auto
    qed
    show "\<forall>q\<in>set queue. q = s \<or> (\<exists>a\<in>set rp. q \<in> set (neighbours a))"
      using inv unfolding flood_inv_def by simp
  qed
qed

lemma flood_inv_visit:
  assumes inv: "flood_inv img s V0 (p # queue) visited rp"
    and new: "p \<notin> visited" "p \<in> grid img" "img_pixels img p = img_pixels img s"
    and s: "s \<in> grid img"
  shows "flood_inv img s V0 (queue @ neighbours p) (insert p visited) (rp @ [p])"
proof -
  have pc: "p \<in> component img s"
  proof -
    from inv have "p = s \<or> (\<exists>a\<in>set rp. p \<in> set (neighbours a))"
      unfolding flood_inv_def by simp
    then show ?thesis
    proof
      assume "p = s" then show ?thesis by (simp add: component_refl)
    next
      assume "\<exists>a\<in>set rp. p \<in> set (neighbours a)"
      then obtain a where a: "a \<in> set rp" "p \<in> set (neighbours a)" by blast
      with inv have ac: "a \<in> component img s" unfolding flood_inv_def by blast
      from component_color [OF ac s] new a(2)
      have "(a, p) \<in> same_color_step img"
        by (simp add: same_color_step_def)
      with ac show ?thesis by (rule component_step)
    qed
  qed
  show ?thesis
    unfolding flood_inv_def
  proof (intro conjI)
    show "insert p visited = V0 \<union> set (rp @ [p])"
      using inv by (auto simp: flood_inv_def)
    show "set (rp @ [p]) \<subseteq> component img s"
      using inv pc by (auto simp: flood_inv_def)
    show "distinct (rp @ [p])"
      using inv new(1) by (auto simp: flood_inv_def)
    show "\<forall>a\<in>set (rp @ [p]). \<forall>q\<in>set (neighbours a). q \<in> component img s \<longrightarrow>
        q \<in> set (rp @ [p]) \<or> q \<in> set (queue @ neighbours p)"
    proof (intro ballI impI)
      fix a q assume a: "a \<in> set (rp @ [p])" "q \<in> set (neighbours a)" "q \<in> component img s"
      show "q \<in> set (rp @ [p]) \<or> q \<in> set (queue @ neighbours p)"
      proof (cases "a = p")
        case True
        with a(2) show ?thesis by simp
      next
        case False
        with a(1) have "a \<in> set rp" by simp
        with inv a(2,3) have "q \<in> set rp \<or> q \<in> set (p # queue)"
          unfolding flood_inv_def by blast
        then show ?thesis by auto
      qed
    qed
    show "s \<in> set (rp @ [p]) \<or> s \<in> set (queue @ neighbours p)"
      using inv by (auto simp: flood_inv_def)
    show "\<forall>q\<in>set (queue @ neighbours p). q = s \<or> (\<exists>a\<in>set (rp @ [p]). q \<in> set (neighbours a))"
      using inv unfolding flood_inv_def by auto
  qed
qed

lemma flood_inv_done:
  assumes inv: "flood_inv img s V0 [] visited rp" and s: "s \<in> grid img"
  shows "visited = V0 \<union> set rp \<and> set rp = component img s \<and> distinct rp"
proof -
  have "component img s \<subseteq> set rp"
  proof (rule component_closed)
    show "s \<in> set rp" using inv by (simp add: flood_inv_def)
    show "\<forall>p\<in>set rp. \<forall>q. (p, q) \<in> same_color_step img \<longrightarrow> q \<in> set rp"
    proof (intro ballI allI impI)
      fix p q assume p: "p \<in> set rp" and st: "(p, q) \<in> same_color_step img"
      from inv p have "p \<in> component img s" unfolding flood_inv_def by blast
      then have "q \<in> component img s" using st by (rule component_step)
      moreover from st have "q \<in> set (neighbours p)" by (simp add: same_color_step_def)
      ultimately show "q \<in> set rp"
        using inv p unfolding flood_inv_def by auto
    qed
  qed
  with inv show ?thesis by (auto simp: flood_inv_def)
qed

lemma flood_loop_correct:
  assumes "flood_inv img s V0 queue visited rp"
    and "pixels = img_pixels img" "img_size img = (w, h)" "color = img_pixels img s"
    and "s \<in> grid img" "V0 \<inter> component img s = {}"
    and "flood_loop pixels w h color queue visited rp = (rp', visited')"
  shows "visited' = V0 \<union> set rp' \<and> set rp' = component img s \<and> distinct rp'"
  using assms
proof (induction pixels w h color queue visited rp rule: flood_loop.induct)
  case (1 pixels width height color visited region_points)
  then show ?case
    using flood_inv_done [of img s V0 visited region_points] by simp
next
  case (2 pixels width height color x y queue visited region_points)
  note s = \<open>s \<in> grid img\<close> and dis = \<open>V0 \<inter> component img s = {}\<close>
  note inv = \<open>flood_inv img s V0 ((x, y) # queue) visited region_points\<close>
  note res = \<open>flood_loop pixels width height color ((x, y) # queue) visited region_points = (rp', visited')\<close>
  have g: "(x, y) \<in> grid img \<longleftrightarrow> \<not> (x < 0 \<or> y < 0 \<or> x \<ge> width \<or> y \<ge> height)"
    using \<open>img_size img = (width, height)\<close> by (auto simp: grid_def)
  show ?case
  proof (cases "(x, y) \<in> visited")
    case True
    then have i: "flood_inv img s V0 queue visited region_points"
      using flood_inv_skip [OF inv _ dis] by blast
    from True res have "flood_loop pixels width height color queue visited region_points = (rp', visited')"
      by (simp add: flood_loop.simps(2))
    from "2.IH"(1) [OF True i "2.prems"(2,3,4) s dis this] show ?thesis .
  next
    case nv: False
    show ?thesis
    proof (cases "x < 0 \<or> y < 0 \<or> x \<ge> width \<or> y \<ge> height")
      case True
      then have "(x, y) \<notin> component img s"
        using component_color [OF _ s, of "(x, y)"] g by blast
      then have i: "flood_inv img s V0 queue visited region_points"
        using flood_inv_skip [OF inv _ dis] by blast
      from nv True res have "flood_loop pixels width height color queue visited region_points = (rp', visited')"
        by (simp add: flood_loop.simps(2))
      from "2.IH"(2) [OF nv True i "2.prems"(2,3,4) s dis this] show ?thesis .
    next
      case ib: False
      show ?thesis
      proof (cases "pixels (x, y) \<noteq> color")
        case True
        then have "(x, y) \<notin> component img s"
          using component_color [OF _ s, of "(x, y)"] "2.prems"(2,4) by auto
        then have i: "flood_inv img s V0 queue visited region_points"
          using flood_inv_skip [OF inv _ dis] by blast
        from nv ib True res have "flood_loop pixels width height color queue visited region_points = (rp', visited')"
          by (simp add: flood_loop.simps(2))
        from "2.IH"(3) [OF nv ib True i "2.prems"(2,3,4) s dis this] show ?thesis .
      next
        case False
        then have c: "img_pixels img (x, y) = img_pixels img s"
          using "2.prems"(2,4) by simp
        from ib g have ig: "(x, y) \<in> grid img" by blast
        have i: "flood_inv img s V0 (queue @ [(x + 1, y), (x - 1, y), (x, y + 1), (x, y - 1)])
            (insert (x, y) visited) (region_points @ [(x, y)])"
          using flood_inv_visit [OF inv nv ig c s] by simp
        from nv ib False res have "flood_loop pixels width height color
             (queue @ [(x + 1, y), (x - 1, y), (x, y + 1), (x, y - 1)])
             (insert (x, y) visited) (region_points @ [(x, y)]) = (rp', visited')"
          by (simp add: flood_loop.simps(2))
        from "2.IH"(4) [OF nv ib False i "2.prems"(2,3,4) s dis this] show ?thesis .
      qed
    qed
  qed
qed

lemma flood_fill_correct:
  assumes s: "(x, y) \<in> grid img" and dis: "V0 \<inter> component img (x, y) = {}"
    and res: "flood_fill img x y (img_pixels img (x, y)) V0 = (rp, visited')"
  shows "visited' = V0 \<union> set rp \<and> set rp = component img (x, y) \<and> distinct rp"
proof -
  obtain w h where sz: "img_size img = (w, h)" by (cases "img_size img")
  have i: "flood_inv img (x, y) V0 [(x, y)] V0 []"
    by (simp add: flood_inv_def)
  from res sz have "flood_loop (img_pixels img) w h (img_pixels img (x, y)) [(x, y)] V0 [] = (rp, visited')"
    by (simp add: flood_fill_def)
  from flood_loop_correct [OF i refl sz refl s dis this] show ?thesis .
qed

section \<open>The regions found by find_color_regions\<close>

text \<open>
  The regions found, as one list of (colour, region) pairs in dictionary order, and the
  number of those regions that contain a given coordinate.
\<close>

definition components :: "('c \<times> point list list) list \<Rightarrow> ('c \<times> point list) list" where
  "components regions = concat (map (\<lambda>(c, l). map (Pair c) l) regions)"

definition comp_count :: "('c \<times> point list list) list \<Rightarrow> point \<Rightarrow> nat" where
  "comp_count regions p = length (filter (\<lambda>cr. p \<in> set (snd cr)) (components regions))"

lemma dict_append_Nil: "dict_append [] c rp = [(c, [rp])]"
  by (simp add: dict_append_def)

lemma dict_append_Cons:
  "dict_append ((k, l) # d) c rp =
     (if k = c then (k, l @ [rp]) # d else (k, l) # dict_append d c rp)"
  by (simp add: dict_append_def split: option.splits)

lemma set_components_dict_append:
  "set (components (dict_append d c rp)) = insert (c, rp) (set (components d))"
proof (induction d)
  case Nil
  show ?case by (simp add: dict_append_Nil components_def)
next
  case (Cons e d)
  obtain k l where e: "e = (k, l)" by (cases e)
  from Cons show ?case
    unfolding e dict_append_Cons by (auto simp: components_def)
qed

lemma comp_count_dict_append:
  "comp_count (dict_append d c rp) p = comp_count d p + (if p \<in> set rp then 1 else 0)"
proof (induction d)
  case Nil
  show ?case by (simp add: dict_append_Nil components_def comp_count_def)
next
  case (Cons e d)
  obtain k l where e: "e = (k, l)" by (cases e)
  from Cons show ?case
    unfolding e dict_append_Cons by (auto simp: components_def comp_count_def)
qed

lemma keys_dict_append:
  "set (map fst (dict_append d c rp)) = insert c (set (map fst d))"
proof (induction d)
  case Nil
  show ?case by (simp add: dict_append_Nil)
next
  case (Cons e d)
  obtain k l where e: "e = (k, l)" by (cases e)
  from Cons show ?case
    unfolding e dict_append_Cons by auto
qed

lemma distinct_dict_append:
  "distinct (map fst d) \<Longrightarrow> distinct (map fst (dict_append d c rp))"
proof (induction d)
  case Nil
  show ?case by (simp add: dict_append_Nil)
next
  case (Cons e d)
  obtain k l where e: "e = (k, l)" by (cases e)
  from Cons keys_dict_append [of d c rp] show ?case
    unfolding e dict_append_Cons by auto
qed

text \<open>
  The invariant of the scan of find_color_regions: \<open>visited\<close> is the union of the regions
  recorded so far, each of them is the component of one of its pixels, filed under the
  colour of that pixel, no coordinate lies in two of them, and the keys are distinct.
\<close>

definition reg_inv :: "'c image \<Rightarrow> ('c \<times> point list list) list \<times> point set \<Rightarrow> bool" where
  "reg_inv img st \<longleftrightarrow>
     (case st of (regions, visited) \<Rightarrow>
        visited = (\<Union>cr\<in>set (components regions). set (snd cr))
      \<and> (\<forall>cr\<in>set (components regions). \<exists>s\<in>grid img.
            img_pixels img s = fst cr \<and> set (snd cr) = component img s \<and> distinct (snd cr))
      \<and> (\<forall>p. comp_count regions p = (if p \<in> visited then 1 else 0))
      \<and> distinct (map fst regions))"

lemma reg_inv_init: "reg_inv img ([], {})"
  by (simp add: reg_inv_def components_def comp_count_def)

lemma component_subset_grid: "s \<in> grid img \<Longrightarrow> component img s \<subseteq> grid img"
  using component_color by blast

lemma reg_inv_visited_closed:
  assumes inv: "reg_inv img (regions, visited)" and q: "q \<in> visited" and p: "q \<in> component img p"
  shows "p \<in> visited"
proof -
  from inv q obtain cr where cr: "cr \<in> set (components regions)" "q \<in> set (snd cr)"
    unfolding reg_inv_def by auto
  with inv obtain s where s: "set (snd cr) = component img s"
    unfolding reg_inv_def by fastforce
  from component_sym [OF p] have "p \<in> component img q" .
  with cr(2) s have "p \<in> component img s"
    by (auto intro: component_trans)
  with s cr(1) inv show ?thesis
    unfolding reg_inv_def by auto
qed

lemma scan_pixel_inv:
  assumes inv: "reg_inv img st" and p: "p \<in> grid img"
  shows "reg_inv img (scan_pixel img p st) \<and> p \<in> snd (scan_pixel img p st)
       \<and> snd st \<subseteq> snd (scan_pixel img p st)"
proof -
  obtain x y where xy: "p = (x, y)" by (cases p)
  obtain regions visited where st: "st = (regions, visited)" by (cases st)
  show ?thesis
  proof (cases "p \<in> visited")
    case True
    then have "scan_pixel img p st = st"
      by (simp add: scan_pixel_def xy st)
    with inv True st show ?thesis by simp
  next
    case False
    obtain rp visited' where ff: "flood_fill img x y (img_pixels img (x, y)) visited = (rp, visited')"
      by (cases "flood_fill img x y (img_pixels img (x, y)) visited")
    have sp: "scan_pixel img p (regions, visited)
        = (dict_append regions (img_pixels img p) rp, visited')"
      using False ff by (simp add: scan_pixel_def xy)
    have dis: "visited \<inter> component img (x, y) = {}"
      using reg_inv_visited_closed [OF inv [unfolded st]] False xy by blast
    from flood_fill_correct [OF p [unfolded xy] dis ff]
    have v': "visited' = visited \<union> set rp" and c: "set rp = component img p" and d: "distinct rp"
      by (simp_all add: xy)
    let ?R = "dict_append regions (img_pixels img p) rp"
    have a: "visited' = (\<Union>cr\<in>set (components ?R). set (snd cr))"
      using inv v' unfolding st reg_inv_def by (auto simp: set_components_dict_append)
    have b: "\<forall>cr\<in>set (components ?R). \<exists>s\<in>grid img.
            img_pixels img s = fst cr \<and> set (snd cr) = component img s \<and> distinct (snd cr)"
    proof
      fix cr assume "cr \<in> set (components ?R)"
      then have "cr = (img_pixels img p, rp) \<or> cr \<in> set (components regions)"
        by (simp add: set_components_dict_append)
      then show "\<exists>s\<in>grid img.
            img_pixels img s = fst cr \<and> set (snd cr) = component img s \<and> distinct (snd cr)"
      proof
        assume "cr = (img_pixels img p, rp)"
        with p c d show ?thesis by auto
      next
        assume "cr \<in> set (components regions)"
        with inv show ?thesis unfolding st reg_inv_def by simp
      qed
    qed
    have cc: "\<forall>q. comp_count ?R q = (if q \<in> visited' then 1 else 0)"
    proof
      fix q
      from inv have "comp_count regions q = (if q \<in> visited then 1 else 0)"
        unfolding st reg_inv_def prod.case by blast
      moreover have "q \<in> set rp \<Longrightarrow> q \<notin> visited"
        using dis c xy by auto
      ultimately show "comp_count ?R q = (if q \<in> visited' then 1 else 0)"
        unfolding comp_count_dict_append v' by auto
    qed
    have dk: "distinct (map fst ?R)"
      using inv unfolding st reg_inv_def by (simp add: distinct_dict_append)
    have "reg_inv img (?R, visited')"
      unfolding reg_inv_def using a b cc dk by simp
    moreover have "p \<in> visited'"
      using v' c component_refl [of p img] by simp
    moreover have "visited \<subseteq> visited'"
      using v' by simp
    ultimately show ?thesis
      unfolding st sp by simp
  qed
qed

lemma fold_scan_pixel_inv:
  assumes "reg_inv img st" "set ps \<subseteq> grid img"
  shows "reg_inv img (fold (scan_pixel img) ps st)
       \<and> set ps \<union> snd st \<subseteq> snd (fold (scan_pixel img) ps st)"
  using assms
proof (induction ps arbitrary: st)
  case Nil
  then show ?case by simp
next
  case (Cons p ps)
  from Cons.prems have p: "p \<in> grid img" by simp
  note sp = scan_pixel_inv [OF Cons.prems(1) p]
  from Cons.IH [of "scan_pixel img p st"] sp Cons.prems(2)
  show ?case by auto
qed

lemma nested_fold:
  "fold (\<lambda>y. fold (\<lambda>x. f (x, y)) xs) ys st
     = fold f (concat (map (\<lambda>y. map (\<lambda>x. (x, y)) xs) ys)) st"
  by (induction ys arbitrary: st) (simp_all add: fold_map comp_def)

lemma find_color_regions_scan:
  "reg_inv img (find_color_regions img, grid img)"
proof -
  obtain w h where sz: "img_size img = (w, h)" by (cases "img_size img")
  let ?ps = "concat (map (\<lambda>y. map (\<lambda>x. (x, y)) (py_range 0 w)) (py_range 0 h))"
  let ?st = "fold (scan_pixel img) ?ps ([], {})"
  have g: "set ?ps = grid img"
    by (auto simp: grid_def sz)
  have f: "find_color_regions img = fst ?st"
    by (simp add: find_color_regions_def sz nested_fold)
  from fold_scan_pixel_inv [OF reg_inv_init, of ?ps img] g
  have i: "reg_inv img ?st" and sub: "grid img \<subseteq> snd ?st"
    by auto
  have "snd ?st \<subseteq> grid img"
  proof
    fix q assume "q \<in> snd ?st"
    with i obtain cr where "cr \<in> set (components (fst ?st))" "q \<in> set (snd cr)"
      unfolding reg_inv_def by (auto simp: case_prod_beta)
    moreover with i obtain s where "s \<in> grid img" "set (snd cr) = component img s"
      unfolding reg_inv_def by (fastforce simp: case_prod_beta)
    ultimately show "q \<in> grid img"
      using component_subset_grid by blast
  qed
  with sub have "snd ?st = grid img" by blast
  with i f show ?thesis
    by (metis prod.collapse)
qed

lemma find_color_regions_spec:
  "distinct (map fst (find_color_regions img))
   \<and> (\<forall>cr\<in>set (components (find_color_regions img)). \<exists>s\<in>grid img.
          img_pixels img s = fst cr \<and> set (snd cr) = component img s \<and> distinct (snd cr))
   \<and> (\<forall>p. comp_count (find_color_regions img) p = (if p \<in> grid img then 1 else 0))"
  using find_color_regions_scan [of img] unfolding reg_inv_def prod.case by blast

subsection \<open>Regions are connected and maximal\<close>

lemma connected_in_component:
  assumes s: "s \<in> grid img" and q: "q \<in> component img s"
  shows "connected_in (component img s) s q"
proof -
  from q have "(s, q) \<in> (same_color_step img)\<^sup>*"
    by (simp add: component_def)
  then show ?thesis
  proof (induction rule: rtrancl_induct)
    case base
    show ?case by (simp add: connected_in_def)
  next
    case (step a b)
    from step(1) have a: "a \<in> component img s" by (simp add: component_def)
    from a step(2) have b: "b \<in> component img s" by (rule component_step)
    from step(2) have "b \<in> set (neighbours a)" by (simp add: same_color_step_def)
    with a b have "(a, b) \<in> {(a, b). a \<in> component img s \<and> b \<in> component img s
        \<and> b \<in> set (neighbours a)}"
      by simp
    with step.IH show ?case
      unfolding connected_in_def by (rule rtrancl_into_rtrancl)
  qed
qed

lemma connected_in_sym: "connected_in S p q \<Longrightarrow> connected_in S q p"
proof -
  have "sym {(a, b). a \<in> S \<and> b \<in> S \<and> b \<in> set (neighbours a)}"
    by (auto intro!: symI dest: neighbours_sym simp del: neighbours.simps)
  then have "sym ({(a, b). a \<in> S \<and> b \<in> S \<and> b \<in> set (neighbours a)}\<^sup>*)"
    by (rule sym_rtrancl)
  then show "connected_in S p q \<Longrightarrow> connected_in S q p"
    unfolding connected_in_def by (rule symD)
qed

lemma connected_in_trans:
  "connected_in S p q \<Longrightarrow> connected_in S q r \<Longrightarrow> connected_in S p r"
  unfolding connected_in_def by (rule rtrancl_trans)

lemma component_connected:
  assumes "s \<in> grid img" "p \<in> component img s" "q \<in> component img s"
  shows "connected_in (component img s) p q"
  using connected_in_component [OF assms(1,2), THEN connected_in_sym]
    connected_in_component [OF assms(1,3)]
  by (rule connected_in_trans)

lemma component_maximal:
  assumes "s \<in> grid img" "p \<in> component img s" "q \<in> set (neighbours p)"
    "q \<in> grid img" "img_pixels img q = img_pixels img s"
  shows "q \<in> component img s"
proof -
  from component_color [OF assms(2,1)] assms(3,4,5)
  have "(p, q) \<in> same_color_step img"
    by (simp add: same_color_step_def)
  with assms(2) show ?thesis by (rule component_step)
qed

section \<open>The rectangles made by create_rects\<close>

text \<open>How many regions of one colour contain a coordinate.\<close>

definition region_count :: "point list list \<Rightarrow> point \<Rightarrow> nat" where
  "region_count region_list p = length (filter (\<lambda>rp. p \<in> set rp) region_list)"

lemma comp_count_Nil [simp]: "comp_count [] p = 0"
  by (simp add: comp_count_def components_def)

lemma comp_count_Cons:
  "comp_count (e # d) p = region_count (snd e) p + comp_count d p"
  by (cases e) (simp add: comp_count_def components_def region_count_def filter_map comp_def)

lemma region_count_pos_iff:
  "0 < region_count l p \<longleftrightarrow> (\<exists>rp\<in>set l. p \<in> set rp)"
  by (auto simp: region_count_def filter_empty_conv)

lemma components_iff:
  "(c, rp) \<in> set (components d) \<longleftrightarrow> (\<exists>l. (c, l) \<in> set d \<and> rp \<in> set l)"
  by (auto simp: components_def)

lemma extend_rects_spec:
  "\<exists>rl. extend_rects pick region_list acc = Inr (acc @ rl)
     \<and> (\<forall>p. cover_count rl p = region_count region_list p)"
proof (induction region_list arbitrary: acc)
  case Nil
  have "extend_rects pick [] acc = Inr (acc @ [])" by simp
  moreover have "\<forall>p. cover_count [] p = region_count [] p"
    by (simp add: region_count_def)
  ultimately show ?case by blast
next
  case (Cons points region_list)
  from split_into_rects_spec [of pick points] obtain rs where
    s: "split_into_rects pick points = Inr rs" and
    c: "\<forall>p. cover_count rs p = (if p \<in> set points then 1 else 0)"
    by blast
  from Cons.IH [of "acc @ rs"] obtain rl where
    e: "extend_rects pick region_list (acc @ rs) = Inr ((acc @ rs) @ rl)" and
    r: "\<forall>p. cover_count rl p = region_count region_list p"
    by blast
  have "extend_rects pick (points # region_list) acc = Inr (acc @ (rs @ rl))"
    using s e by simp
  moreover have "\<forall>p. cover_count (rs @ rl) p = region_count (points # region_list) p"
  proof
    fix p
    from c have "cover_count rs p = (if p \<in> set points then 1 else 0)" ..
    moreover from r have "cover_count rl p = region_count region_list p" ..
    ultimately show "cover_count (rs @ rl) p = region_count (points # region_list) p"
      by (simp add: cover_count_append region_count_def)
  qed
  ultimately show ?case by blast
qed

lemma dict_set_fresh: "k \<notin> set (map fst d) \<Longrightarrow> dict_set d k v = d @ [(k, v)]"
  by (induction d) auto

text \<open>
  An entry of \<open>rects\<close> belongs to an entry of \<open>regions\<close>: same colour, and its rectangles
  cover a coordinate as often as the regions of that colour contain it.
\<close>

definition group_of :: "('c \<times> point list list) \<Rightarrow> ('c \<times> rect list) \<Rightarrow> bool" where
  "group_of e g \<longleftrightarrow> fst g = fst e \<and> (\<forall>p. cover_count (snd g) p = region_count (snd e) p)"

lemma create_rects_loop_spec:
  assumes "distinct (map fst regions)" "set (map fst regions) \<inter> set (map fst acc) = {}"
  shows "\<exists>out. create_rects_loop pick regions acc = Inr (acc @ out)
     \<and> list_all2 group_of regions out"
  using assms
proof (induction regions arbitrary: acc)
  case Nil
  have "create_rects_loop pick [] acc = Inr (acc @ [])" by simp
  then show ?case by blast
next
  case (Cons e regions)
  obtain color region_list where e: "e = (color, region_list)" by (cases e)
  from extend_rects_spec [of pick region_list "[]"] obtain rl where
    x: "extend_rects pick region_list [] = Inr rl" and
    c: "\<forall>p. cover_count rl p = region_count region_list p"
    by auto
  have f: "dict_set acc color rl = acc @ [(color, rl)]"
    using Cons.prems(2) e by (intro dict_set_fresh) auto
  have d: "distinct (map fst regions)"
    using Cons.prems(1) by simp
  have i: "set (map fst regions) \<inter> set (map fst (acc @ [(color, rl)])) = {}"
    using Cons.prems e by auto
  from Cons.IH [OF d i] obtain out where
    l: "create_rects_loop pick regions (acc @ [(color, rl)]) = Inr ((acc @ [(color, rl)]) @ out)" and
    a: "list_all2 group_of regions out"
    by blast
  have "create_rects_loop pick (e # regions) acc = Inr (acc @ ((color, rl) # out))"
    using x f l by (simp add: e)
  moreover have "list_all2 group_of (e # regions) ((color, rl) # out)"
    using a c by (simp add: group_of_def e)
  ultimately show ?case by blast
qed

lemma create_rects_spec:
  assumes "distinct (map fst regions)"
  shows "\<exists>rects. create_rects pick regions = Inr rects \<and> list_all2 group_of regions rects"
  using create_rects_loop_spec [OF assms, of "[]" pick] by (simp add: create_rects_def)

lemma group_of_keys: "list_all2 group_of regions rects \<Longrightarrow> map fst rects = map fst regions"
  by (induction rule: list_all2_induct) (auto simp: group_of_def)

lemma group_of_total:
  "list_all2 group_of regions rects \<Longrightarrow>
   cover_count (concat (map snd rects)) p = comp_count regions p"
proof (induction rule: list_all2_induct)
  case Nil
  show ?case by simp
next
  case (Cons e regions g rects)
  from Cons(1) have "cover_count (snd g) p = region_count (snd e) p"
    unfolding group_of_def by blast
  with Cons.IH show ?case
    by (simp add: cover_count_append comp_count_Cons)
qed

lemma group_of_member:
  "list_all2 group_of regions rects \<Longrightarrow> g \<in> set rects \<Longrightarrow>
   \<exists>e\<in>set regions. group_of e g"
  by (induction rule: list_all2_induct) auto

lemma distinct_keys_unique:
  assumes "distinct (map fst d)" "(k, v) \<in> set d" "(k, v') \<in> set d"
  shows "v = v'"
  using map_of_is_SomeI [OF assms(1,2)] map_of_is_SomeI [OF assms(1,3)] by simp

lemma catalog_spec:
  "\<exists>rects. create_rects pick (find_color_regions img) = Inr rects
     \<and> distinct (map fst rects)
     \<and> img_pixels img ` grid img \<subseteq> set (map fst rects)
     \<and> (\<forall>g\<in>set rects. (\<Union>r\<in>set (snd g). rect_points r)
            = {p \<in> grid img. img_pixels img p = fst g})
     \<and> (\<forall>p. cover_count (concat (map snd rects)) p = (if p \<in> grid img then 1 else 0))"
proof -
  let ?R = "find_color_regions img"
  note fs = find_color_regions_spec [of img]
  from fs have dk: "distinct (map fst ?R)" by blast
  from fs have cs: "\<forall>cr\<in>set (components ?R). \<exists>s\<in>grid img.
      img_pixels img s = fst cr \<and> set (snd cr) = component img s \<and> distinct (snd cr)"
    by blast
  from fs have cc: "\<forall>p. comp_count ?R p = (if p \<in> grid img then 1 else 0)" by blast
  from create_rects_spec [OF dk, of pick] obtain rects where
    cr: "create_rects pick ?R = Inr rects" and ga: "list_all2 group_of ?R rects"
    by blast
  have keys: "map fst rects = map fst ?R" using ga by (rule group_of_keys)
  have in_comp: "p \<in> grid img \<and> img_pixels img p = c"
    if "(c, l) \<in> set ?R" "rp \<in> set l" "p \<in> set rp" for c l rp p
  proof -
    from that(1,2) have "(c, rp) \<in> set (components ?R)"
      by (auto simp: components_iff)
    with cs obtain s where s: "s \<in> grid img" "img_pixels img s = c" "set rp = component img s"
      by fastforce
    with that(3) component_color [of p img s] show ?thesis by simp
  qed
  have has_comp: "\<exists>l rp. (img_pixels img p, l) \<in> set ?R \<and> rp \<in> set l \<and> p \<in> set rp"
    if "p \<in> grid img" for p
  proof -
    from cc have "comp_count ?R p = (if p \<in> grid img then 1 else 0)" ..
    with that have "comp_count ?R p = 1" by simp
    then have "filter (\<lambda>cr. p \<in> set (snd cr)) (components ?R) \<noteq> []"
      unfolding comp_count_def by auto
    then obtain cr where m: "cr \<in> set (components ?R)" "p \<in> set (snd cr)"
      by (auto simp: filter_empty_conv)
    obtain c rp where e: "cr = (c, rp)" by (cases cr)
    from m e obtain l where l: "(c, l) \<in> set ?R" "rp \<in> set l"
      by (auto simp: components_iff)
    from in_comp [OF l] m(2) e have "img_pixels img p = c" by simp
    with l m(2) e show ?thesis by auto
  qed
  have k: "img_pixels img ` grid img \<subseteq> set (map fst rects)"
  proof
    fix c assume "c \<in> img_pixels img ` grid img"
    then obtain p where "p \<in> grid img" "c = img_pixels img p" by blast
    with has_comp [of p] show "c \<in> set (map fst rects)"
      unfolding keys by force
  qed
  have gp: "\<forall>g\<in>set rects. (\<Union>r\<in>set (snd g). rect_points r)
            = {p \<in> grid img. img_pixels img p = fst g}"
  proof
    fix g assume g: "g \<in> set rects"
    from group_of_member [OF ga g] obtain e where
      e: "e \<in> set ?R" "fst g = fst e" and
      c: "\<forall>p. cover_count (snd g) p = region_count (snd e) p"
      unfolding group_of_def by blast
    have iff: "p \<in> (\<Union>r\<in>set (snd g). rect_points r) \<longleftrightarrow> (\<exists>rp\<in>set (snd e). p \<in> set rp)" for p
    proof -
      from c have "cover_count (snd g) p = region_count (snd e) p" ..
      then have "0 < cover_count (snd g) p \<longleftrightarrow> 0 < region_count (snd e) p" by simp
      then show ?thesis by (simp only: cover_count_pos_iff region_count_pos_iff)
    qed
    show "(\<Union>r\<in>set (snd g). rect_points r) = {p \<in> grid img. img_pixels img p = fst g}"
    proof (rule set_eqI)
      fix p
      show "p \<in> (\<Union>r\<in>set (snd g). rect_points r)
          \<longleftrightarrow> p \<in> {p \<in> grid img. img_pixels img p = fst g}"
      proof
        assume "p \<in> (\<Union>r\<in>set (snd g). rect_points r)"
        with iff obtain rp where rp: "rp \<in> set (snd e)" "p \<in> set rp" by blast
        from e(1) have "(fst e, snd e) \<in> set ?R" by simp
        from in_comp [OF this rp] e(2) show "p \<in> {p \<in> grid img. img_pixels img p = fst g}"
          by simp
      next
        assume "p \<in> {p \<in> grid img. img_pixels img p = fst g}"
        then have p: "p \<in> grid img" "img_pixels img p = fst g" by simp_all
        from has_comp [OF p(1)] obtain l rp where
          l: "(img_pixels img p, l) \<in> set ?R" "rp \<in> set l" "p \<in> set rp" by blast
        from e p(2) have "(img_pixels img p, snd e) \<in> set ?R" by simp
        from distinct_keys_unique [OF dk l(1) this] have "l = snd e" .
        with l iff show "p \<in> (\<Union>r\<in>set (snd g). rect_points r)" by blast
      qed
    qed
  qed
  have tot: "\<forall>p. cover_count (concat (map snd rects)) p = (if p \<in> grid img then 1 else 0)"
  proof
    fix p
    from cc have "comp_count ?R p = (if p \<in> grid img then 1 else 0)" ..
    with group_of_total [OF ga, of p]
    show "cover_count (concat (map snd rects)) p = (if p \<in> grid img then 1 else 0)"
      by simp
  qed
  have dr: "distinct (map fst rects)" using dk keys by simp
  from cr dr k gp tot show ?thesis by blast
qed

section \<open>The region elements of the document\<close>

text \<open>
  The coordinates covered by one \<open>region\<close> element of the document, and the relation
  "two coordinates are covered by the same \<open>region\<close> element".
\<close>

definition group_points :: "region_element \<Rightarrow> point set" where
  "group_points g = (\<Union>r\<in>set (region_rects g). rect_points r)"

definition same_group :: "region_element list \<Rightarrow> point \<Rightarrow> point \<Rightarrow> bool" where
  "same_group catalog p q \<longleftrightarrow> (\<exists>g\<in>set catalog. p \<in> group_points g \<and> q \<in> group_points g)"

lemma digit_char_inj:
  assumes "a < 10" "b < 10" "digit_char a = digit_char b"
  shows "a = b"
proof -
  from assms(3) have "(of_char (char_of (48 + a)) :: nat) = of_char (char_of (48 + b))"
    by (simp add: digit_char_def)
  with assms(1,2) show ?thesis by simp
qed

lemma str_nat_not_Nil: "str_nat n \<noteq> []"
  by (subst str_nat.simps) simp

lemma str_nat_inj: "str_nat m = str_nat n \<Longrightarrow> m = n"
proof (induction m arbitrary: n rule: str_nat.induct)
  case (1 m)
  show ?case
  proof (cases "m < 10")
    case True
    then have m: "str_nat m = [digit_char m]" by (subst str_nat.simps) simp
    show ?thesis
    proof (cases "n < 10")
      case n: True
      then have "str_nat n = [digit_char n]" by (subst str_nat.simps) simp
      with m "1.prems" have "digit_char m = digit_char n" by simp
      with True n show ?thesis by (rule digit_char_inj)
    next
      case False
      then have "str_nat n = str_nat (n div 10) @ [digit_char (n mod 10)]"
        by (subst str_nat.simps) simp
      with m "1.prems" str_nat_not_Nil [of "n div 10"] show ?thesis by simp
    qed
  next
    case False
    then have m: "str_nat m = str_nat (m div 10) @ [digit_char (m mod 10)]"
      by (subst str_nat.simps) simp
    show ?thesis
    proof (cases "n < 10")
      case True
      then have "str_nat n = [digit_char n]" by (subst str_nat.simps) simp
      with m "1.prems" str_nat_not_Nil [of "m div 10"] show ?thesis by simp
    next
      case n: False
      then have "str_nat n = str_nat (n div 10) @ [digit_char (n mod 10)]"
        by (subst str_nat.simps) simp
      with m "1.prems" have e: "str_nat (m div 10) = str_nat (n div 10)"
        and d: "digit_char (m mod 10) = digit_char (n mod 10)"
        by simp_all
      from "1.IH" [OF False e] have q: "m div 10 = n div 10" .
      have "m mod 10 = n mod 10"
        by (rule digit_char_inj [OF _ _ d]) simp_all
      with q show ?thesis
        by (metis div_mult_mod_eq)
    qed
  qed
qed

lemma region_rects_elements:
  "map region_rects (region_elements idx rects) = map snd rects"
  by (induction idx rects rule: region_elements.induct) simp_all

lemma length_region_elements [simp]:
  "length (region_elements idx rects) = length rects"
  by (induction idx rects rule: region_elements.induct) simp_all

lemma region_name_nth:
  "i < length rects \<Longrightarrow>
   region_name (region_elements idx rects ! i) = ''Region_'' @ str_nat (idx + i)"
proof (induction idx rects arbitrary: i rule: region_elements.induct)
  case (1 idx)
  then show ?case by simp
next
  case (2 idx color rect_list rects)
  show ?case
  proof (cases i)
    case 0
    then show ?thesis by simp
  next
    case (Suc j)
    with "2.prems" have "j < length rects" by simp
    from "2.IH" [OF this] Suc show ?thesis by simp
  qed
qed

lemma distinct_region_names:
  "distinct (map region_name (region_elements idx rects))"
proof -
  have "map region_name (region_elements idx rects) ! i \<noteq> map region_name (region_elements idx rects) ! j"
    if "i < length rects" "j < length rects" "i \<noteq> j" for i j
  proof
    assume "map region_name (region_elements idx rects) ! i
        = map region_name (region_elements idx rects) ! j"
    with that have "''Region_'' @ str_nat (idx + i) = ''Region_'' @ str_nat (idx + j)"
      by (simp add: region_name_nth)
    then have "str_nat (idx + i) = str_nat (idx + j)" by simp
    then have "idx + i = idx + j" by (rule str_nat_inj)
    with that(3) show False by simp
  qed
  then show ?thesis
    by (simp add: distinct_conv_nth)
qed

lemma same_group_elements:
  "same_group (region_elements idx rects) p q \<longleftrightarrow>
     (\<exists>g\<in>set rects. p \<in> (\<Union>r\<in>set (snd g). rect_points r) \<and> q \<in> (\<Union>r\<in>set (snd g). rect_points r))"
proof -
  have "group_points ` set (region_elements idx rects)
      = (\<lambda>g. \<Union>r\<in>set (snd g). rect_points r) ` set rects"
  proof -
    have "group_points ` set (region_elements idx rects)
        = (\<lambda>rl. \<Union>r\<in>set rl. rect_points r) ` set (map region_rects (region_elements idx rects))"
      by (auto simp: group_points_def image_iff)
    also have "\<dots> = (\<lambda>g. \<Union>r\<in>set (snd g). rect_points r) ` set rects"
      unfolding region_rects_elements by (auto simp: image_iff)
    finally show ?thesis .
  qed
  then have "(\<exists>A\<in>group_points ` set (region_elements idx rects). p \<in> A \<and> q \<in> A)
      \<longleftrightarrow> (\<exists>A\<in>(\<lambda>g. \<Union>r\<in>set (snd g). rect_points r) ` set rects. p \<in> A \<and> q \<in> A)"
    by simp
  then show ?thesis
    unfolding same_group_def by auto
qed

section \<open>split_into_rects on a heap of objects\<close>

text \<open>
  To state what split_into_rects does to the object it is given, the objects live in a
  heap: a list of objects, the address of an object being its position, and allocation
  appending a new object. The caller passes the address of its list of points.
\<close>

datatype pyobj = PyList "point list" | PySet "point list"

type_synonym heap = "pyobj list"

definition heap_get :: "heap \<Rightarrow> nat \<Rightarrow> pyobj option" where
  "heap_get h a = (if a < length h then Some (h ! a) else None)"

definition heap_alloc :: "heap \<Rightarrow> pyobj \<Rightarrow> nat \<times> heap" where
  "heap_alloc h obj = (length h, h @ [obj])"

fun elements :: "pyobj \<Rightarrow> point list" where
  "elements (PyList xs) = xs"
| "elements (PySet xs) = xs"

text \<open>The number of elements of the object at an address (the measure of the loop).\<close>

definition set_size :: "heap \<Rightarrow> nat \<Rightarrow> nat" where
  "set_size h a = (case heap_get h a of Some obj \<Rightarrow> length (elements obj) | None \<Rightarrow> 0)"

lemma set_size_update:
  "heap_get h a = Some (PySet ps) \<Longrightarrow> split_body pick ps = Inr (r, ps') \<Longrightarrow>
   set_size (h[a := PySet ps']) a < set_size h a"
  by (auto simp: set_size_def heap_get_def dest: split_body_length split: if_splits)

text \<open>
  The loop \<open>while points:\<close> on the heap: \<open>points\<close> is the address the local name is bound
  to. One iteration (\<open>split_body\<close>) reads the elements of the set object at that address
  and every \<open>pop\<close> and \<open>remove\<close> of the iteration mutates that same object, so the
  iteration ends with the object holding the remaining elements.
\<close>

function split_loop_heap ::
  "(point list \<Rightarrow> nat) \<Rightarrow> nat \<Rightarrow> heap \<Rightarrow> rect list \<Rightarrow> py_error + (rect list \<times> heap)" where
  "split_loop_heap pick points h rects =
     (case heap_get h points of
        Some (PySet ps) \<Rightarrow>
          (if ps \<noteq> []
           then (case split_body pick ps of
                   Inl e \<Rightarrow> Inl e
                 | Inr (r, ps') \<Rightarrow> split_loop_heap pick points (h[points := PySet ps']) (rects @ [r]))
           else Inr (rects, h))
      | _ \<Rightarrow> Inl (OtherError ''AttributeError''))"
  by pat_completeness auto
termination
  by (relation "measure (\<lambda>(pick, points, h, rects). set_size h points)")
     (auto intro: set_size_update)

declare split_loop_heap.simps [simp del]

text \<open>
  \<open>points = set(points)\<close> allocates a new set object holding the elements of the
  argument and binds the local name \<open>points\<close> to it; the loop then runs on that address.
\<close>

definition split_into_rects_heap ::
  "(point list \<Rightarrow> nat) \<Rightarrow> nat \<Rightarrow> heap \<Rightarrow> py_error + (rect list \<times> heap)" where
  "split_into_rects_heap pick points h =
     (case heap_get h points of
        None \<Rightarrow> Inl (OtherError ''NameError'')
      | Some obj \<Rightarrow>
          (case heap_alloc h (PySet (remdups (elements obj))) of
             (points', h') \<Rightarrow> split_loop_heap pick points' h' []))"

lemma split_loop_heap_sim:
  assumes "heap_get h a = Some (PySet ps)"
  shows "split_loop_heap pick a h rects
     = (case split_loop pick ps rects of Inl e \<Rightarrow> Inl e | Inr rs \<Rightarrow> Inr (rs, h[a := PySet []]))"
  using assms
proof (induction pick ps rects arbitrary: h rule: split_loop.induct)
  case (1 pick ps rects)
  from "1.prems" have a: "a < length h" and ha: "h ! a = PySet ps"
    by (auto simp: heap_get_def split: if_splits)
  show ?case
  proof (cases "ps = []")
    case True
    with ha have u: "h[a := PySet []] = h" by (simp add: list_update_same_conv a)
    have l: "split_loop pick [] rects = Inr rects"
      by (subst split_loop.simps) simp
    from True "1.prems" show ?thesis
      by (simp add: split_loop_heap.simps [of pick a h] l u)
  next
    case False
    show ?thesis
    proof (cases "split_body pick ps")
      case (Inl e)
      with False "1.prems" show ?thesis
        by (simp add: split_loop_heap.simps [of pick a h] split_loop.simps [of pick ps])
    next
      case (Inr x)
      obtain r ps' where x: "x = (r, ps')" by (cases x)
      have g: "heap_get (h[a := PySet ps']) a = Some (PySet ps')"
        using a by (simp add: heap_get_def)
      from "1.IH" [OF False Inr [unfolded x] refl g, unfolded list_update_overwrite]
      have "split_loop_heap pick a (h[a := PySet ps']) (rects @ [r])
          = (case split_loop pick ps' (rects @ [r]) of Inl e \<Rightarrow> Inl e
             | Inr rs \<Rightarrow> Inr (rs, h[a := PySet []]))" .
      with False Inr x "1.prems" show ?thesis
        by (simp add: split_loop_heap.simps [of pick a h] split_loop.simps [of pick ps])
    qed
  qed
qed

section \<open>load_bmp\<close>

lemma load_bmp_try_size:
  "load_bmp_try image_open file_path = Inr img \<Longrightarrow> img_size img = (6144, 4096)"
  by (auto simp: load_bmp_try_def split: sum.splits if_splits)

section \<open>The order of the colours in the dictionaries\<close>

text \<open>
  The coordinates in the order in which the two nested loops of find_color_regions visit
  them: rows from the top, each row from the left.
\<close>

definition scan_order :: "'c image \<Rightarrow> point list" where
  "scan_order img =
     (case img_size img of (width, height) \<Rightarrow>
        concat (map (\<lambda>y. map (\<lambda>x. (x, y)) (py_range 0 width)) (py_range 0 height)))"

text \<open>
  The distinct values of a list in the order of their first occurrence: going through the
  list, a value that has not been seen yet is added at the end.
\<close>

definition discovery_order :: "'a list \<Rightarrow> 'a list" where
  "discovery_order xs = fold (\<lambda>x ks. if x \<in> set ks then ks else ks @ [x]) xs []"

lemma find_color_regions_fold:
  "find_color_regions img = fst (fold (scan_pixel img) (scan_order img) ([], {}))"
  by (simp add: find_color_regions_def scan_order_def nested_fold split: prod.splits)

lemma set_scan_order: "set (scan_order img) = grid img"
proof -
  obtain w h where sz: "img_size img = (w, h)" by (cases "img_size img")
  show ?thesis
    by (auto simp: scan_order_def grid_def sz)
qed

lemma keys_dict_append_order:
  "map fst (dict_append d c rp) = (if c \<in> set (map fst d) then map fst d else map fst d @ [c])"
proof (induction d)
  case Nil
  show ?case by (simp add: dict_append_Nil)
next
  case (Cons e d)
  obtain k l where e: "e = (k, l)" by (cases e)
  from Cons show ?case
    unfolding e dict_append_Cons by auto
qed

lemma scan_pixel_keys:
  assumes inv: "reg_inv img st" and p: "p \<in> grid img"
  shows "map fst (fst (scan_pixel img p st))
       = (if img_pixels img p \<in> set (map fst (fst st)) then map fst (fst st)
          else map fst (fst st) @ [img_pixels img p])"
proof -
  obtain x y where xy: "p = (x, y)" by (cases p)
  obtain regions visited where st: "st = (regions, visited)" by (cases st)
  show ?thesis
  proof (cases "p \<in> visited")
    case True
    then have e: "scan_pixel img p st = st"
      by (simp add: scan_pixel_def xy st)
    from inv True obtain cr where cr: "cr \<in> set (components regions)" "p \<in> set (snd cr)"
      unfolding st reg_inv_def by auto
    with inv obtain s where s: "s \<in> grid img" "img_pixels img s = fst cr"
      "set (snd cr) = component img s"
      unfolding st reg_inv_def by fastforce
    from component_color [of p img s] cr(2) s have c: "img_pixels img p = fst cr" by simp
    obtain c' rp where cr': "cr = (c', rp)" by (cases cr)
    with cr(1) have "c' \<in> set (map fst regions)"
      by (auto simp: components_iff intro: rev_image_eqI)
    with c cr' have "img_pixels img p \<in> set (map fst regions)" by simp
    with e st show ?thesis by simp
  next
    case False
    obtain rp visited' where ff: "flood_fill img x y (img_pixels img (x, y)) visited = (rp, visited')"
      by (cases "flood_fill img x y (img_pixels img (x, y)) visited")
    have "scan_pixel img p (regions, visited)
        = (dict_append regions (img_pixels img p) rp, visited')"
      using False ff by (simp add: scan_pixel_def xy)
    then show ?thesis
      unfolding st by (simp only: fst_conv keys_dict_append_order)
  qed
qed

lemma fold_scan_pixel_keys:
  assumes "reg_inv img st" "set ps \<subseteq> grid img"
  shows "map fst (fst (fold (scan_pixel img) ps st))
       = fold (\<lambda>x ks. if x \<in> set ks then ks else ks @ [x]) (map (img_pixels img) ps)
           (map fst (fst st))"
  using assms
proof (induction ps arbitrary: st)
  case Nil
  then show ?case by simp
next
  case (Cons p ps)
  from Cons.prems have p: "p \<in> grid img" and ps: "set ps \<subseteq> grid img" by simp_all
  from scan_pixel_inv [OF Cons.prems(1) p] have i: "reg_inv img (scan_pixel img p st)" by blast
  from Cons.IH [OF i ps] scan_pixel_keys [OF Cons.prems(1) p]
  show ?case by simp
qed

lemma find_color_regions_keys:
  "map fst (find_color_regions img) = discovery_order (map (img_pixels img) (scan_order img))"
  unfolding find_color_regions_fold discovery_order_def
  using fold_scan_pixel_keys [OF reg_inv_init, of "scan_order img" img]
  by (simp add: set_scan_order)

lemma set_discovery_order_fold:
  "set (fold (\<lambda>x ks. if x \<in> set ks then ks else ks @ [x]) xs ks) = set xs \<union> set ks"
  by (induction xs arbitrary: ks) auto

lemma set_discovery_order: "set (discovery_order xs) = set xs"
  by (simp add: discovery_order_def set_discovery_order_fold)

lemma catalog_keys:
  assumes "create_rects pick (find_color_regions img) = Inr rects"
  shows "map fst rects = discovery_order (map (img_pixels img) (scan_order img))"
proof -
  from find_color_regions_spec [of img]
  have "distinct (map fst (find_color_regions img))" by blast
  from create_rects_spec [OF this, of pick] assms
  have "list_all2 group_of (find_color_regions img) rects" by auto
  then have "map fst rects = map fst (find_color_regions img)" by (rule group_of_keys)
  then show ?thesis by (simp only: find_color_regions_keys)
qed

lemma rune_name_nth:
  "i < length rects \<Longrightarrow>
   rune_name (region_elements idx rects ! i) = ''Region_'' @ str_nat (idx + i)"
proof (induction idx rects arbitrary: i rule: region_elements.induct)
  case (1 idx)
  then show ?case by simp
next
  case (2 idx color rect_list rects)
  show ?case
  proof (cases i)
    case 0
    then show ?thesis by simp
  next
    case (Suc j)
    with "2.prems" have "j < length rects" by simp
    from "2.IH" [OF this] Suc show ?thesis by simp
  qed
qed

lemma region_rects_nth:
  assumes "i < length rects"
  shows "region_rects (region_elements idx rects ! i) = snd (rects ! i)"
proof -
  have "map region_rects (region_elements idx rects) ! i = map snd rects ! i"
    by (simp only: region_rects_elements)
  with assms show ?thesis by simp
qed

section \<open>Example inputs\<close>

text \<open>A row of three pixels coloured 0, 1, 0: the two pixels of colour 0 do not touch.\<close>

definition three_pixel_row :: "nat image" where
  "three_pixel_row = \<lparr>img_size = (3, 1), img_pixels = (\<lambda>p. if p = (1, 0) then 1 else 0)\<rparr>"

lemma three_pixel_row_component: "component three_pixel_row (0, 0) \<subseteq> {(0, 0)}"
proof (rule component_closed)
  show "(0, 0) \<in> {(0, 0) :: point}" by simp
  show "\<forall>p\<in>{(0, 0)}. \<forall>q. (p, q) \<in> same_color_step three_pixel_row \<longrightarrow> q \<in> {(0, 0)}"
    by (auto simp: same_color_step_def grid_def three_pixel_row_def)
qed

section \<open>Properties of the rectangle decomposition\<close>

text \<open>
  C1. The height-growth step is meant to absorb every successive full row below the origin
  row, so that the nine points of a 3 by 3 square give the single rectangle \<open>(0, 0, 3, 3)\<close>.
  The code looks at the row \<open>y0 + 1\<close> only: whatever \<open>pop\<close> chooses, the nine points
  never decompose into \<open>[(0, 0, 3, 3)]\<close>, and when \<open>pop\<close> returns the first element
  of the set each time the result is \<open>[(0, 0, 3, 2), (0, 2, 3, 1)]\<close>.
\<close>

theorem scenario_A_height_growth:
  "split_into_rects pick [(0, 0), (1, 0), (2, 0), (0, 1), (1, 1), (2, 1), (0, 2), (1, 2), (2, 2)]
     \<noteq> Inr [(0, 0, 3, 3)]
   \<and> split_into_rects (\<lambda>ps. 0) [(0, 0), (1, 0), (2, 0), (0, 1), (1, 1), (2, 1), (0, 2), (1, 2), (2, 2)]
     = Inr [(0, 0, 3, 2), (0, 2, 3, 1)]"
proof (rule conjI)
  let ?g = "[(0, 0), (1, 0), (2, 0), (0, 1), (1, 1), (2, 1), (0, 2), (1, 2), (2, 2)] :: point list"
  show "split_into_rects pick ?g \<noteq> Inr [(0, 0, 3, 3)]"
  proof
    assume a: "split_into_rects pick ?g = Inr [(0, 0, 3, 3)]"
    from split_into_rects_spec [of pick ?g] a
    have "\<forall>r\<in>set [(0, 0, 3, 3) :: rect]. rect_height r \<le> 2" by auto
    then show False by simp
  qed
next
  show "split_into_rects (\<lambda>ps. 0) [(0, 0), (1, 0), (2, 0), (0, 1), (1, 1), (2, 1), (0, 2), (1, 2), (2, 2)]
     = Inr [(0, 0, 3, 2), (0, 2, 3, 1)]"
    by code_simp
qed

text \<open>
  C4. The rectangles returned by split_into_rects cover exactly the input coordinates:
  their union is the input set, no rectangle covers a coordinate outside it, and two
  different rectangles of the list never share a coordinate.
\<close>

theorem split_into_rects_exact_cover:
  assumes "split_into_rects pick points = Inr rects"
  shows "(\<Union>r\<in>set rects. rect_points r) = set points
     \<and> (\<forall>r\<in>set rects. rect_points r \<subseteq> set points)
     \<and> (\<forall>i<length rects. \<forall>j<length rects. i \<noteq> j \<longrightarrow>
          rect_points (rects ! i) \<inter> rect_points (rects ! j) = {})"
proof -
  from split_into_rects_spec [of pick points] assms
  have c: "\<forall>p. cover_count rects p = (if p \<in> set points then 1 else 0)"
    by auto
  have u: "(\<Union>r\<in>set rects. rect_points r) = set points"
  proof (rule set_eqI)
    fix p
    from c have "cover_count rects p = (if p \<in> set points then 1 else 0)" ..
    then have "0 < cover_count rects p \<longleftrightarrow> p \<in> set points"
      by (simp split: if_splits)
    then show "p \<in> (\<Union>r\<in>set rects. rect_points r) \<longleftrightarrow> p \<in> set points"
      by (simp only: cover_count_pos_iff)
  qed
  then have s: "\<forall>r\<in>set rects. rect_points r \<subseteq> set points"
    by blast
  have "\<forall>p. cover_count rects p \<le> 1"
    using c by simp
  then have d: "\<forall>i<length rects. \<forall>j<length rects. i \<noteq> j \<longrightarrow>
      rect_points (rects ! i) \<inter> rect_points (rects ! j) = {}"
    using cover_count_disjoint [of rects] by blast
  from u s d show ?thesis by blast
qed

theorem split_into_rects_exact_cover_witness:
  "split_into_rects (\<lambda>ps. 2) [(0, 0), (1, 0), (0, 1), (0, 2), (1, 2)]
     = Inr [(0, 1, 1, 2), (1, 2, 1, 1), (0, 0, 2, 1)]
   \<and> (\<Union>r\<in>set [(0, 1, 1, 2), (1, 2, 1, 1), (0, 0, 2, 1)]. rect_points r)
     = set [(0, 0), (1, 0), (0, 1), (0, 2), (1, 2)]
   \<and> rect_points ([(0, 1, 1, 2), (1, 2, 1, 1), (0, 0, 2, 1)] ! 0)
       \<inter> rect_points ([(0, 1, 1, 2), (1, 2, 1, 1), (0, 0, 2, 1)] ! 2) = {}"
proof -
  have h: "split_into_rects (\<lambda>ps. 2) [(0, 0), (1, 0), (0, 1), (0, 2), (1, 2)]
     = Inr [(0, 1, 1, 2), (1, 2, 1, 1), (0, 0, 2, 1)]"
    by code_simp
  note t = split_into_rects_exact_cover [OF h]
  from t have u: "(\<Union>r\<in>set [(0, 1, 1, 2), (1, 2, 1, 1), (0, 0, 2, 1)]. rect_points r)
     = set [(0, 0), (1, 0), (0, 1), (0, 2), (1, 2)]"
    by (rule conjunct1)
  have d: "rect_points ([(0, 1, 1, 2), (1, 2, 1, 1), (0, 0, 2, 1)] ! 0)
       \<inter> rect_points ([(0, 1, 1, 2), (1, 2, 1, 1), (0, 0, 2, 1)] ! 2) = {}"
    by (rule t [THEN conjunct2, THEN conjunct2, rule_format, of 0 2]) simp_all
  from h u d show ?thesis by (intro conjI)
qed

text \<open>
  C6. split_into_rects always returns a list of rectangles (no KeyError from \<open>pop\<close> or
  \<open>remove\<close>), with at most as many rectangles as there are input coordinates; every iteration
  of the outer loop appends one rectangle and removes at least the popped origin from the
  remaining set, so the loop runs at most that many times.
\<close>

theorem split_into_rects_terminates:
  "(\<exists>rects. split_into_rects pick points = Inr rects \<and> length rects \<le> card (set points))
   \<and> (ps \<noteq> [] \<longrightarrow>
        (\<exists>x0 y0 w h ps'. split_body pick ps = Inr ((x0, y0, w, h), ps')
           \<and> (x0, y0) \<in> set ps \<and> (x0, y0) \<notin> set ps'
           \<and> set ps' \<subset> set ps \<and> card (set ps') < card (set ps)))"
proof (rule conjI)
  show "\<exists>rects. split_into_rects pick points = Inr rects \<and> length rects \<le> card (set points)"
    using split_into_rects_spec [of pick points] by blast
next
  show "ps \<noteq> [] \<longrightarrow>
        (\<exists>x0 y0 w h ps'. split_body pick ps = Inr ((x0, y0, w, h), ps')
           \<and> (x0, y0) \<in> set ps \<and> (x0, y0) \<notin> set ps'
           \<and> set ps' \<subset> set ps \<and> card (set ps') < card (set ps))"
  proof
    assume "ps \<noteq> []"
    from split_body_spec [OF this, of pick] obtain x0 y0 w h ps' where
      b: "split_body pick ps = Inr ((x0, y0, w, h), ps')" and
      w: "1 \<le> w" and h: "h = 1 \<or> h = 2" and m: "(x0, y0) \<in> set ps" and
      s: "set ps' = set ps - rect_points (x0, y0, w, h)"
      by blast
    have o: "(x0, y0) \<in> rect_points (x0, y0, w, h)"
      using w h by auto
    with s have n: "(x0, y0) \<notin> set ps'" by blast
    from s m n have p: "set ps' \<subset> set ps" by blast
    then have "card (set ps') < card (set ps)"
      by (simp add: psubset_card_mono)
    with b m n p show "\<exists>x0 y0 w h ps'. split_body pick ps = Inr ((x0, y0, w, h), ps')
           \<and> (x0, y0) \<in> set ps \<and> (x0, y0) \<notin> set ps'
           \<and> set ps' \<subset> set ps \<and> card (set ps') < card (set ps)"
      by blast
  qed
qed

theorem split_into_rects_terminates_witness:
  "(\<exists>rects. split_into_rects (\<lambda>ps. 0) [(0, 0), (1, 0), (0, 1)] = Inr rects
       \<and> length rects \<le> card (set [(0, 0), (1, 0), (0, 1) :: point]))
   \<and> [(0, 0), (1, 0), (0, 1) :: point] \<noteq> []
   \<and> (\<exists>x0 y0 w h ps'.
         split_body (\<lambda>ps. 0) [(0, 0), (1, 0), (0, 1)] = Inr ((x0, y0, w, h), ps')
       \<and> card (set ps') < card (set [(0, 0), (1, 0), (0, 1) :: point]))"
proof -
  have n: "[(0, 0), (1, 0), (0, 1) :: point] \<noteq> []" by simp
  from split_into_rects_terminates
    [of "\<lambda>ps. 0" "[(0, 0), (1, 0), (0, 1)]" "[(0, 0), (1, 0), (0, 1)]"] n
  show ?thesis by blast
qed

text \<open>
  C8. Every rectangle returned by split_into_rects has height at most 2: the rows of the
  downward loop are fixed while \<open>height\<close> is still 1, so only the row \<open>y0 + 1\<close> is examined.
\<close>

theorem split_into_rects_height_le_2:
  assumes "split_into_rects pick points = Inr rects"
  shows "\<forall>r\<in>set rects. rect_height r \<le> 2"
  using split_into_rects_spec [of pick points] assms by auto

theorem split_into_rects_height_le_2_witness:
  "split_into_rects (\<lambda>ps. 0) [(0, 0), (0, 1), (0, 2), (0, 3)] = Inr [(0, 0, 1, 2), (0, 2, 1, 2)]
   \<and> rect_height (0, 0, 1, 2) \<le> 2 \<and> rect_height (0, 2, 1, 2) \<le> 2"
proof -
  have h: "split_into_rects (\<lambda>ps. 0) [(0, 0), (0, 1), (0, 2), (0, 3)]
      = Inr [(0, 0, 1, 2), (0, 2, 1, 2)]"
    by code_simp
  note t = split_into_rects_height_le_2 [OF h, rule_format]
  have a: "rect_height (0, 0, 1, 2) \<le> 2" by (rule t) simp
  have b: "rect_height (0, 2, 1, 2) \<le> 2" by (rule t) simp
  from h a b show ?thesis by (intro conjI)
qed

section \<open>Properties of the region extraction\<close>

text \<open>
  C5. find_color_regions partitions the pixels: every coordinate of the grid lies in
  exactly one of the regions it records, and each region, filed under colour \<open>c\<close>, is a
  non-empty list without repetition of grid coordinates of colour \<open>c\<close>, any two of which are
  joined by 4-adjacent steps inside the region, and which no further grid pixel of colour
  \<open>c\<close> touches.
\<close>

theorem find_color_regions_partition:
  "(\<forall>p\<in>grid img. comp_count (find_color_regions img) p = 1)
   \<and> (\<forall>(c, rp)\<in>set (components (find_color_regions img)).
        distinct rp \<and> rp \<noteq> [] \<and> set rp \<subseteq> grid img
        \<and> (\<forall>p\<in>set rp. img_pixels img p = c)
        \<and> (\<forall>p\<in>set rp. \<forall>q\<in>set rp. connected_in (set rp) p q)
        \<and> (\<forall>p\<in>set rp. \<forall>q\<in>set (neighbours p).
              q \<in> grid img \<and> img_pixels img q = c \<longrightarrow> q \<in> set rp))"
proof (intro conjI ballI)
  fix p assume "p \<in> grid img"
  moreover from find_color_regions_spec [of img]
  have "comp_count (find_color_regions img) p = (if p \<in> grid img then 1 else 0)"
    by blast
  ultimately show "comp_count (find_color_regions img) p = 1"
    by simp
next
  fix cr assume cr: "cr \<in> set (components (find_color_regions img))"
  obtain c rp where e: "cr = (c, rp)" by (cases cr)
  from find_color_regions_spec [of img] cr e obtain s where
    s: "s \<in> grid img" and c: "img_pixels img s = c" and
    rp: "set rp = component img s" and d: "distinct rp"
    by fastforce
  have ne: "rp \<noteq> []"
    using rp component_refl [of s img] by auto
  have sub: "set rp \<subseteq> grid img"
    using rp component_subset_grid [OF s] by simp
  have col: "\<forall>p\<in>set rp. img_pixels img p = c"
    using rp c component_color [OF _ s] by auto
  have con: "\<forall>p\<in>set rp. \<forall>q\<in>set rp. connected_in (set rp) p q"
    unfolding rp using component_connected [OF s] by blast
  have mx: "\<forall>p\<in>set rp. \<forall>q\<in>set (neighbours p).
              q \<in> grid img \<and> img_pixels img q = c \<longrightarrow> q \<in> set rp"
  proof (intro ballI impI)
    fix p q assume "p \<in> set rp" "q \<in> set (neighbours p)"
      "q \<in> grid img \<and> img_pixels img q = c"
    then show "q \<in> set rp"
      unfolding rp using component_maximal [OF s, of p q] c by simp
  qed
  from d ne sub col con mx show "case cr of (c, rp) \<Rightarrow>
        distinct rp \<and> rp \<noteq> [] \<and> set rp \<subseteq> grid img
        \<and> (\<forall>p\<in>set rp. img_pixels img p = c)
        \<and> (\<forall>p\<in>set rp. \<forall>q\<in>set rp. connected_in (set rp) p q)
        \<and> (\<forall>p\<in>set rp. \<forall>q\<in>set (neighbours p).
              q \<in> grid img \<and> img_pixels img q = c \<longrightarrow> q \<in> set rp)"
    unfolding e prod.case by blast
qed

theorem find_color_regions_partition_witness:
  "find_color_regions three_pixel_row = [(0, [[(0, 0)], [(2, 0)]]), (1, [[(1, 0)]])]
   \<and> (2, 0) \<in> grid three_pixel_row \<and> comp_count (find_color_regions three_pixel_row) (2, 0) = 1
   \<and> (0, [(2, 0)]) \<in> set (components (find_color_regions three_pixel_row))
   \<and> connected_in (set [(2, 0)]) (2, 0) (2, 0)
   \<and> (1, 0) \<in> set (neighbours (2, 0)) \<and> img_pixels three_pixel_row (1, 0) \<noteq> 0"
proof -
  have r: "find_color_regions three_pixel_row = [(0, [[(0, 0)], [(2, 0)]]), (1, [[(1, 0)]])]"
    by code_simp
  have g: "(2, 0) \<in> grid three_pixel_row"
    by (simp add: grid_def three_pixel_row_def)
  have m: "(0, [(2, 0)]) \<in> set (components (find_color_regions three_pixel_row))"
    unfolding r by (simp add: components_def)
  note t = find_color_regions_partition [of three_pixel_row]
  from t g have c: "comp_count (find_color_regions three_pixel_row) (2, 0) = 1"
    by blast
  from t m have "\<forall>p\<in>set [(2, 0)]. \<forall>q\<in>set [(2, 0)]. connected_in (set [(2, 0)]) p q"
    by fast
  then have k: "connected_in (set [(2, 0)]) (2, 0) (2, 0)"
    by simp
  have n: "(1, 0) \<in> set (neighbours (2, 0)) \<and> img_pixels three_pixel_row (1, 0) \<noteq> 0"
    by (simp add: three_pixel_row_def)
  from r g c m k n show ?thesis by blast
qed

section \<open>Properties of the catalog\<close>

text \<open>
  C2 (as amended). The groups of the document are the colours, not the connected
  components. create_rects succeeds and its dictionary has exactly one entry per colour
  of the grid, in the order in which the scan of find_color_regions (rows from the top,
  each row from the left) first meets the colours. The entry at position \<open>i\<close> (from 0)
  becomes the \<open>region\<close> element at position \<open>i\<close>, whose name and whose rune name are
  \<open>Region_\<close> followed by \<open>i + 1\<close> in decimal, and which covers exactly the grid pixels of
  that colour. So the elements have pairwise different names, two grid coordinates are
  covered by the same element exactly when their pixels have the same colour, and
  coordinates that are 4-connected through pixels of one colour are in the same element.
\<close>

theorem catalog_groups_by_color:
  "\<exists>rects. create_rects pick (find_color_regions img) = Inr rects
     \<and> map fst rects = discovery_order (map (img_pixels img) (scan_order img))
     \<and> distinct (map fst rects)
     \<and> set (map fst rects) = img_pixels img ` grid img
     \<and> length (region_elements 1 rects) = length rects
     \<and> (\<forall>i<length rects.
            region_name (region_elements 1 rects ! i) = ''Region_'' @ str_nat (i + 1)
          \<and> rune_name (region_elements 1 rects ! i) = ''Region_'' @ str_nat (i + 1)
          \<and> group_points (region_elements 1 rects ! i)
              = {p \<in> grid img. img_pixels img p = fst (rects ! i)})
     \<and> distinct (map region_name (region_elements 1 rects))
     \<and> (\<forall>p\<in>grid img. \<forall>q\<in>grid img.
          same_group (region_elements 1 rects) p q \<longleftrightarrow> img_pixels img p = img_pixels img q)
     \<and> (\<forall>p\<in>grid img. \<forall>q\<in>component img p. same_group (region_elements 1 rects) p q)"
proof -
  from catalog_spec [of pick img] obtain rects where
    cr: "create_rects pick (find_color_regions img) = Inr rects" and
    dk: "distinct (map fst rects)" and
    k: "img_pixels img ` grid img \<subseteq> set (map fst rects)" and
    gp: "\<forall>g\<in>set rects. (\<Union>r\<in>set (snd g). rect_points r)
            = {p \<in> grid img. img_pixels img p = fst g}"
    by blast
  let ?cat = "region_elements 1 rects"
  have ord: "map fst rects = discovery_order (map (img_pixels img) (scan_order img))"
    using cr by (rule catalog_keys)
  have ks: "set (map fst rects) = img_pixels img ` grid img"
    unfolding ord set_discovery_order by (simp add: set_scan_order)
  have nth: "\<forall>i<length rects.
            region_name (?cat ! i) = ''Region_'' @ str_nat (i + 1)
          \<and> rune_name (?cat ! i) = ''Region_'' @ str_nat (i + 1)
          \<and> group_points (?cat ! i) = {p \<in> grid img. img_pixels img p = fst (rects ! i)}"
  proof (intro allI impI conjI)
    fix i assume i: "i < length rects"
    from region_name_nth [OF i, of 1]
    show "region_name (?cat ! i) = ''Region_'' @ str_nat (i + 1)"
      by (simp only: add.commute [of 1 i])
    from rune_name_nth [OF i, of 1]
    show "rune_name (?cat ! i) = ''Region_'' @ str_nat (i + 1)"
      by (simp only: add.commute [of 1 i])
    from i have "rects ! i \<in> set rects" by simp
    with gp have "(\<Union>r\<in>set (snd (rects ! i)). rect_points r)
        = {p \<in> grid img. img_pixels img p = fst (rects ! i)}" ..
    then show "group_points (?cat ! i) = {p \<in> grid img. img_pixels img p = fst (rects ! i)}"
      unfolding group_points_def region_rects_nth [OF i] .
  qed
  have iff: "same_group ?cat p q \<longleftrightarrow> img_pixels img p = img_pixels img q"
    if p: "p \<in> grid img" and q: "q \<in> grid img" for p q
  proof
    assume "same_group ?cat p q"
    then obtain g where g: "g \<in> set rects"
      "p \<in> (\<Union>r\<in>set (snd g). rect_points r)" "q \<in> (\<Union>r\<in>set (snd g). rect_points r)"
      unfolding same_group_elements by blast
    from gp g(1) have e: "(\<Union>r\<in>set (snd g). rect_points r)
        = {p \<in> grid img. img_pixels img p = fst g}" ..
    from g(2,3) show "img_pixels img p = img_pixels img q"
      unfolding e by simp
  next
    assume c: "img_pixels img p = img_pixels img q"
    from k p have "img_pixels img p \<in> set (map fst rects)" by blast
    then obtain g where g: "g \<in> set rects" "fst g = img_pixels img p" by auto
    from gp g(1) have e: "(\<Union>r\<in>set (snd g). rect_points r)
        = {p \<in> grid img. img_pixels img p = fst g}" ..
    have "p \<in> (\<Union>r\<in>set (snd g). rect_points r)" "q \<in> (\<Union>r\<in>set (snd g). rect_points r)"
      unfolding e using p q c g(2) by simp_all
    with g(1) show "same_group ?cat p q"
      unfolding same_group_elements by blast
  qed
  have con: "\<forall>p\<in>grid img. \<forall>q\<in>component img p. same_group ?cat p q"
  proof (intro ballI)
    fix p q assume p: "p \<in> grid img" and q: "q \<in> component img p"
    from component_color [OF q p] iff [OF p, of q] show "same_group ?cat p q"
      by simp
  qed
  have len: "length ?cat = length rects" by simp
  have dn: "distinct (map region_name ?cat)" by (rule distinct_region_names)
  from cr ord dk ks len nth dn iff con show ?thesis by blast
qed

theorem catalog_groups_by_color_witness:
  "create_rects (\<lambda>ps. 0) (find_color_regions three_pixel_row)
     = Inr [(0, [(0, 0, 1, 1), (2, 0, 1, 1)]), (1, [(1, 0, 1, 1)])]
   \<and> discovery_order (map (img_pixels three_pixel_row) (scan_order three_pixel_row)) = [0, 1]
   \<and> (1 :: nat) < length [(0 :: nat, [(0, 0, 1, 1), (2, 0, 1, 1) :: rect]), (1, [(1, 0, 1, 1)])]
   \<and> region_name (region_elements 1 [(0 :: nat, [(0, 0, 1, 1), (2, 0, 1, 1)]), (1, [(1, 0, 1, 1)])] ! 1)
       = ''Region_2''
   \<and> group_points (region_elements 1 [(0 :: nat, [(0, 0, 1, 1), (2, 0, 1, 1)]), (1, [(1, 0, 1, 1)])] ! 1)
       = {p \<in> grid three_pixel_row. img_pixels three_pixel_row p = 1}
   \<and> (0, 0) \<in> grid three_pixel_row \<and> (1, 0) \<in> grid three_pixel_row
   \<and> img_pixels three_pixel_row (0, 0) \<noteq> img_pixels three_pixel_row (1, 0)
   \<and> \<not> same_group (region_elements 1 [(0 :: nat, [(0, 0, 1, 1), (2, 0, 1, 1)]), (1, [(1, 0, 1, 1)])])
        (0, 0) (1, 0)
   \<and> (0, 0) \<in> component three_pixel_row (0, 0)
   \<and> same_group (region_elements 1 [(0 :: nat, [(0, 0, 1, 1), (2, 0, 1, 1)]), (1, [(1, 0, 1, 1)])])
        (0, 0) (0, 0)"
proof -
  let ?rects = "[(0 :: nat, [(0, 0, 1, 1), (2, 0, 1, 1) :: rect]), (1, [(1, 0, 1, 1)])]"
  let ?cat = "region_elements 1 ?rects"
  have h: "create_rects (\<lambda>ps. 0) (find_color_regions three_pixel_row) = Inr ?rects"
    by code_simp
  have g: "(0, 0) \<in> grid three_pixel_row" "(1, 0) \<in> grid three_pixel_row"
    by (simp_all add: grid_def three_pixel_row_def)
  have c: "img_pixels three_pixel_row (0, 0) \<noteq> img_pixels three_pixel_row (1, 0)"
    by (simp add: three_pixel_row_def)
  have m: "(0, 0) \<in> component three_pixel_row (0, 0)"
    by (rule component_refl)
  have l: "(1 :: nat) < length ?rects" by simp
  from catalog_groups_by_color [of "\<lambda>ps. 0" three_pixel_row] obtain rects where
    r: "create_rects (\<lambda>ps. 0) (find_color_regions three_pixel_row) = Inr rects" and
    ord: "map fst rects
        = discovery_order (map (img_pixels three_pixel_row) (scan_order three_pixel_row))" and
    nth: "\<forall>i<length rects.
            region_name (region_elements 1 rects ! i) = ''Region_'' @ str_nat (i + 1)
          \<and> rune_name (region_elements 1 rects ! i) = ''Region_'' @ str_nat (i + 1)
          \<and> group_points (region_elements 1 rects ! i)
              = {p \<in> grid three_pixel_row. img_pixels three_pixel_row p = fst (rects ! i)}" and
    iff: "\<forall>p\<in>grid three_pixel_row. \<forall>q\<in>grid three_pixel_row.
      same_group (region_elements 1 rects) p q
        \<longleftrightarrow> img_pixels three_pixel_row p = img_pixels three_pixel_row q" and
    con: "\<forall>p\<in>grid three_pixel_row. \<forall>q\<in>component three_pixel_row p.
      same_group (region_elements 1 rects) p q"
    by blast
  from r h have e: "rects = ?rects" by simp
  from ord have o: "discovery_order (map (img_pixels three_pixel_row) (scan_order three_pixel_row))
      = [0, 1]"
    unfolding e by simp
  from nth l have n1: "region_name (?cat ! 1) = ''Region_'' @ str_nat (1 + 1)
      \<and> group_points (?cat ! 1)
          = {p \<in> grid three_pixel_row. img_pixels three_pixel_row p = fst (?rects ! 1)}"
    unfolding e by blast
  have s2: "''Region_'' @ str_nat (1 + 1) = ''Region_2''" by code_simp
  from n1 have nm: "region_name (?cat ! 1) = ''Region_2''"
    unfolding s2 by (rule conjunct1)
  from n1 have gq: "group_points (?cat ! 1)
      = {p \<in> grid three_pixel_row. img_pixels three_pixel_row p = 1}"
    by simp
  from iff g c have n: "\<not> same_group ?cat (0, 0) (1, 0)"
    unfolding e by blast
  from con g(1) m have s: "same_group ?cat (0, 0) (0, 0)"
    unfolding e by blast
  from h o l nm gq g c n m s show ?thesis by blast
qed

text \<open>
  C2 as stated fails: in the row of three pixels coloured 0, 1, 0 the coordinates
  \<open>(0, 0)\<close> and \<open>(2, 0)\<close> have the same colour and are not 4-connected through pixels of
  that colour, yet both are covered by the first \<open>region\<close> element, \<open>Region_1\<close>.
\<close>

theorem catalog_groups_by_component_counterexample:
  "create_rects (\<lambda>ps. 0) (find_color_regions three_pixel_row)
     = Inr [(0, [(0, 0, 1, 1), (2, 0, 1, 1)]), (1, [(1, 0, 1, 1)])]
   \<and> (0, 0) \<in> grid three_pixel_row \<and> (2, 0) \<in> grid three_pixel_row
   \<and> img_pixels three_pixel_row (0, 0) = img_pixels three_pixel_row (2, 0)
   \<and> (2, 0) \<notin> component three_pixel_row (0, 0)
   \<and> same_group (region_elements 1 [(0 :: nat, [(0, 0, 1, 1), (2, 0, 1, 1)]), (1, [(1, 0, 1, 1)])])
        (0, 0) (2, 0)
   \<and> map region_name (region_elements 1 [(0 :: nat, [(0, 0, 1, 1), (2, 0, 1, 1)]), (1, [(1, 0, 1, 1)])])
       = [''Region_1'', ''Region_2'']"
proof -
  let ?rects = "[(0 :: nat, [(0, 0, 1, 1), (2, 0, 1, 1)]), (1, [(1, 0, 1, 1)])]"
  have h: "create_rects (\<lambda>ps. 0) (find_color_regions three_pixel_row) = Inr ?rects"
    by code_simp
  have g: "(0, 0) \<in> grid three_pixel_row \<and> (2, 0) \<in> grid three_pixel_row"
    by (simp add: grid_def three_pixel_row_def)
  have c: "img_pixels three_pixel_row (0, 0) = img_pixels three_pixel_row (2, 0)"
    by (simp add: three_pixel_row_def)
  have n: "(2, 0) \<notin> component three_pixel_row (0, 0)"
    using three_pixel_row_component by auto
  have s: "same_group (region_elements 1 ?rects) (0, 0) (2, 0)"
    unfolding same_group_elements by simp
  have m: "map region_name (region_elements 1 ?rects) = [''Region_1'', ''Region_2'']"
    by code_simp
  from h g c n s m show ?thesis by blast
qed

text \<open>
  C3. The rectangles of the catalog tile the pixel grid: the union of the coordinates
  covered by all groups is the grid, every grid coordinate is covered by exactly one
  rectangle of the whole catalog, two different rectangles never share a coordinate, and
  every coordinate covered by a rectangle of the group of colour \<open>c\<close> is a grid pixel of
  colour \<open>c\<close>. The \<open>region\<close> elements of the document carry these rectangle lists.
\<close>

theorem catalog_covers_grid:
  "\<exists>rects. create_rects pick (find_color_regions img) = Inr rects
     \<and> map region_rects (region_elements 1 rects) = map snd rects
     \<and> (\<Union>g\<in>set rects. \<Union>r\<in>set (snd g). rect_points r) = grid img
     \<and> (\<forall>p\<in>grid img. cover_count (concat (map snd rects)) p = 1)
     \<and> (\<forall>i<length (concat (map snd rects)). \<forall>j<length (concat (map snd rects)). i \<noteq> j \<longrightarrow>
          rect_points (concat (map snd rects) ! i) \<inter> rect_points (concat (map snd rects) ! j) = {})
     \<and> (\<forall>g\<in>set rects. \<forall>r\<in>set (snd g). \<forall>p\<in>rect_points r.
          p \<in> grid img \<and> img_pixels img p = fst g)"
proof -
  from catalog_spec [of pick img] obtain rects where
    cr: "create_rects pick (find_color_regions img) = Inr rects" and
    k: "img_pixels img ` grid img \<subseteq> set (map fst rects)" and
    gp: "\<forall>g\<in>set rects. (\<Union>r\<in>set (snd g). rect_points r)
            = {p \<in> grid img. img_pixels img p = fst g}" and
    tot: "\<forall>p. cover_count (concat (map snd rects)) p = (if p \<in> grid img then 1 else 0)"
    by blast
  let ?all = "concat (map snd rects)"
  have el: "map region_rects (region_elements 1 rects) = map snd rects"
    by (rule region_rects_elements)
  have u: "(\<Union>g\<in>set rects. \<Union>r\<in>set (snd g). rect_points r) = grid img"
  proof (rule set_eqI)
    fix p
    show "p \<in> (\<Union>g\<in>set rects. \<Union>r\<in>set (snd g). rect_points r) \<longleftrightarrow> p \<in> grid img"
    proof
      assume "p \<in> (\<Union>g\<in>set rects. \<Union>r\<in>set (snd g). rect_points r)"
      then obtain g where "g \<in> set rects" "p \<in> (\<Union>r\<in>set (snd g). rect_points r)"
        by blast
      with gp have "p \<in> {p \<in> grid img. img_pixels img p = fst g}" by blast
      then show "p \<in> grid img" by simp
    next
      assume p: "p \<in> grid img"
      with k have "img_pixels img p \<in> set (map fst rects)" by blast
      then obtain g where g: "g \<in> set rects" "fst g = img_pixels img p" by auto
      with p have "p \<in> {p \<in> grid img. img_pixels img p = fst g}" by simp
      with gp g(1) have "p \<in> (\<Union>r\<in>set (snd g). rect_points r)" by blast
      with g(1) show "p \<in> (\<Union>g\<in>set rects. \<Union>r\<in>set (snd g). rect_points r)" by blast
    qed
  qed
  have one: "\<forall>p\<in>grid img. cover_count ?all p = 1"
  proof
    fix p assume "p \<in> grid img"
    moreover from tot have "cover_count ?all p = (if p \<in> grid img then 1 else 0)" ..
    ultimately show "cover_count ?all p = 1" by simp
  qed
  have le: "\<forall>p. cover_count ?all p \<le> 1"
  proof
    fix p
    from tot have "cover_count ?all p = (if p \<in> grid img then 1 else 0)" ..
    then show "cover_count ?all p \<le> 1" by simp
  qed
  have dj: "\<forall>i<length ?all. \<forall>j<length ?all. i \<noteq> j \<longrightarrow>
      rect_points (?all ! i) \<inter> rect_points (?all ! j) = {}"
    using cover_count_disjoint [OF le] by blast
  have col: "\<forall>g\<in>set rects. \<forall>r\<in>set (snd g). \<forall>p\<in>rect_points r.
      p \<in> grid img \<and> img_pixels img p = fst g"
  proof (intro ballI)
    fix g r p assume a: "g \<in> set rects" "r \<in> set (snd g)" "p \<in> rect_points r"
    then have "p \<in> (\<Union>r\<in>set (snd g). rect_points r)" by blast
    with gp a(1) have "p \<in> {p \<in> grid img. img_pixels img p = fst g}" by blast
    then show "p \<in> grid img \<and> img_pixels img p = fst g" by simp
  qed
  from cr el u one dj col show ?thesis by blast
qed

theorem catalog_covers_grid_witness:
  "create_rects (\<lambda>ps. 0) (find_color_regions three_pixel_row)
     = Inr [(0, [(0, 0, 1, 1), (2, 0, 1, 1)]), (1, [(1, 0, 1, 1)])]
   \<and> (2, 0) \<in> grid three_pixel_row
   \<and> cover_count (concat (map snd [(0 :: nat, [(0, 0, 1, 1), (2, 0, 1, 1)]), (1, [(1, 0, 1, 1)])]))
        (2, 0) = 1
   \<and> (2, 0) \<in> rect_points (2, 0, 1, 1) \<and> img_pixels three_pixel_row (2, 0) = 0"
proof -
  let ?rects = "[(0 :: nat, [(0, 0, 1, 1), (2, 0, 1, 1)]), (1, [(1, 0, 1, 1)])]"
  have h: "create_rects (\<lambda>ps. 0) (find_color_regions three_pixel_row) = Inr ?rects"
    by code_simp
  have g: "(2, 0) \<in> grid three_pixel_row"
    by (simp add: grid_def three_pixel_row_def)
  from catalog_covers_grid [of "\<lambda>ps. 0" three_pixel_row] h
  have one: "\<forall>p\<in>grid three_pixel_row. cover_count (concat (map snd ?rects)) p = 1"
    and col: "\<forall>g\<in>set ?rects. \<forall>r\<in>set (snd g). \<forall>p\<in>rect_points r.
      p \<in> grid three_pixel_row \<and> img_pixels three_pixel_row p = fst g"
    by auto
  from one g have c: "cover_count (concat (map snd ?rects)) (2, 0) = 1"
    by blast
  have m: "(2, 0) \<in> rect_points (2, 0, 1, 1)" by simp
  have "(0 :: nat, [(0, 0, 1, 1), (2, 0, 1, 1)]) \<in> set ?rects" by simp
  with col have "\<forall>r\<in>set [(0, 0, 1, 1), (2, 0, 1, 1)]. \<forall>p\<in>rect_points r.
      p \<in> grid three_pixel_row \<and> img_pixels three_pixel_row p = 0"
    by fastforce
  with m have p: "img_pixels three_pixel_row (2, 0) = 0"
    by fastforce
  from h g c m p show ?thesis by blast
qed

section \<open>Properties of the input stage\<close>

text \<open>
  C7. When the image that \<open>Image.open\<close> returns does not measure 6144 by 4096, the
  \<open>try\<close> block of load_bmp raises the ValueError naming the dimensions, and main ends
  having only printed the error line: no region is computed and no file is written.
  More generally, whenever load_bmp returns \<open>None\<close>, main returns the state load_bmp left,
  in which the files are those from before the run.
\<close>

theorem wrong_dimensions_abort:
  assumes "image_open bmp_file = Inr img" "img_size img \<noteq> (6144, 4096)"
  shows "load_bmp_try image_open bmp_file
        = Inl (ValueError (''Image dimensions are '' @ str_size (img_size img)
                 @ '', but expected 6144x4096.''))
     \<and> main image_open prettify_xml pick bmp_file output_file w
        = Inr (w\<lparr>stdout := stdout w @ [''Error loading image: Image dimensions are ''
                 @ str_size (img_size img) @ '', but expected 6144x4096.'']\<rparr>)
     \<and> (\<forall>w1. load_bmp image_open bmp_file w = Inr (None, w1) \<longrightarrow>
           main image_open prettify_xml pick bmp_file output_file w = Inr w1
           \<and> files w1 = files w)"
proof (intro conjI allI impI)
  show t: "load_bmp_try image_open bmp_file
        = Inl (ValueError (''Image dimensions are '' @ str_size (img_size img)
                 @ '', but expected 6144x4096.''))"
    using assms by (simp add: load_bmp_try_def)
  show "main image_open prettify_xml pick bmp_file output_file w
        = Inr (w\<lparr>stdout := stdout w @ [''Error loading image: Image dimensions are ''
                 @ str_size (img_size img) @ '', but expected 6144x4096.'']\<rparr>)"
    by (simp add: main_def load_bmp_def t)
next
  fix w1 assume a: "load_bmp image_open bmp_file w = Inr (None, w1)"
  then show "main image_open prettify_xml pick bmp_file output_file w = Inr w1"
    by (simp add: main_def)
  from a show "files w1 = files w"
    by (auto simp: load_bmp_def split: sum.splits)
qed

theorem wrong_dimensions_abort_witness:
  "img_size three_pixel_row \<noteq> (6144, 4096)
   \<and> main (\<lambda>path. Inr three_pixel_row) (\<lambda>doc. []) (\<lambda>ps. 0) ''map.bmp'' ''Regions.xml''
        \<lparr>files = Map.empty, stdout = []\<rparr>
     = Inr \<lparr>files = Map.empty,
           stdout = [''Error loading image: Image dimensions are (3, 1), but expected 6144x4096.'']\<rparr>"
proof -
  have s: "img_size three_pixel_row \<noteq> (6144, 4096)"
    by (simp add: three_pixel_row_def)
  have z: "str_size (img_size three_pixel_row) = ''(3, 1)''"
    unfolding three_pixel_row_def by code_simp
  from wrong_dimensions_abort [of "\<lambda>path. Inr three_pixel_row" "''map.bmp''" three_pixel_row,
      OF refl s, of "\<lambda>doc. []" "\<lambda>ps. 0" "''Regions.xml''" "\<lparr>files = Map.empty, stdout = []\<rparr>"]
  have "main (\<lambda>path. Inr three_pixel_row) (\<lambda>doc. []) (\<lambda>ps. 0) ''map.bmp'' ''Regions.xml''
        \<lparr>files = Map.empty, stdout = []\<rparr>
     = Inr \<lparr>files = Map.empty,
           stdout = [''Error loading image: Image dimensions are (3, 1), but expected 6144x4096.'']\<rparr>"
    unfolding z by simp
  with s show ?thesis by (rule conjI)
qed

text \<open>
  C9. load_bmp never lets an exception out: for every path and every behaviour of
  \<open>Image.open\<close> it returns, writing no file, either \<open>None\<close> or an image whose size is
  \<open>(6144, 4096)\<close>.
\<close>

theorem load_bmp_never_raises:
  "\<exists>r w'. load_bmp image_open file_path w = Inr (r, w') \<and> files w' = files w
     \<and> (r = None \<or> (\<exists>img. r = Some img \<and> img_size img = (6144, 4096)))"
proof (cases "load_bmp_try image_open file_path")
  case (Inl e)
  then show ?thesis by (simp add: load_bmp_def)
next
  case (Inr img)
  with load_bmp_try_size [OF Inr] show ?thesis by (simp add: load_bmp_def)
qed

theorem load_bmp_never_raises_witness:
  "load_bmp (\<lambda>path. Inl (OtherError ''cannot identify image file'')) ''map.bmp''
      \<lparr>files = Map.empty, stdout = []\<rparr>
    = Inr (None :: nat image option,
        \<lparr>files = Map.empty, stdout = [''Error loading image: cannot identify image file'']\<rparr>)"
proof -
  from load_bmp_never_raises
    [of "\<lambda>path. Inl (OtherError ''cannot identify image file'') :: py_error + nat image"
        "''map.bmp''" "\<lparr>files = Map.empty, stdout = []\<rparr>"]
  obtain r w' where
    "load_bmp (\<lambda>path. Inl (OtherError ''cannot identify image file'')) ''map.bmp''
      \<lparr>files = Map.empty, stdout = []\<rparr> = Inr (r :: nat image option, w')"
    by blast
  then show ?thesis
    by (simp add: load_bmp_def load_bmp_try_def)
qed

section \<open>The argument of split_into_rects\<close>

text \<open>
  C10. split_into_rects does not mutate its argument: called with the address of a list of
  points, it returns the rectangles that the function computes from the elements of the
  list, the list object at that address and every other object that existed before the
  call are unchanged, and the only new object is the emptied set the function worked on.
\<close>

theorem split_into_rects_keeps_argument:
  assumes "heap_get h points = Some (PyList xs)"
  shows "\<exists>rects h'. split_into_rects_heap pick points h = Inr (rects, h')
     \<and> split_into_rects pick xs = Inr rects
     \<and> heap_get h' points = Some (PyList xs)
     \<and> (\<forall>b<length h. heap_get h' b = heap_get h b)
     \<and> h' = h @ [PySet []]"
proof -
  from split_into_rects_spec [of pick xs] obtain rects where
    r: "split_into_rects pick xs = Inr rects" by blast
  let ?h1 = "h @ [PySet (remdups xs)]"
  have g: "heap_get ?h1 (length h) = Some (PySet (remdups xs))"
    by (simp add: heap_get_def)
  have "split_into_rects_heap pick points h = split_loop_heap pick (length h) ?h1 []"
    using assms by (simp add: split_into_rects_heap_def heap_alloc_def)
  also have "\<dots> = Inr (rects, ?h1[length h := PySet []])"
    using split_loop_heap_sim [OF g, of pick "[]"] r
    by (simp add: split_into_rects_def)
  also have "?h1[length h := PySet []] = h @ [PySet []]"
    by simp
  finally have e: "split_into_rects_heap pick points h = Inr (rects, h @ [PySet []])" .
  have f: "\<forall>b<length h. heap_get (h @ [PySet []]) b = heap_get h b"
    by (simp add: heap_get_def nth_append)
  from assms have "points < length h"
    by (simp add: heap_get_def split: if_splits)
  with f assms have k: "heap_get (h @ [PySet []]) points = Some (PyList xs)"
    by simp
  from e r k f show ?thesis by blast
qed

theorem split_into_rects_keeps_argument_witness:
  "heap_get [PyList [(0, 0), (1, 0), (0, 1)]] 0 = Some (PyList [(0, 0), (1, 0), (0, 1)])
   \<and> split_into_rects_heap (\<lambda>ps. 0) 0 [PyList [(0, 0), (1, 0), (0, 1)]]
     = Inr ([(0, 0, 2, 1), (0, 1, 1, 1)], [PyList [(0, 0), (1, 0), (0, 1)], PySet []])"
proof -
  have g: "heap_get [PyList [(0, 0), (1, 0), (0, 1)]] 0 = Some (PyList [(0, 0), (1, 0), (0, 1)])"
    by (simp add: heap_get_def)
  have r: "split_into_rects (\<lambda>ps. 0) [(0, 0), (1, 0), (0, 1)] = Inr [(0, 0, 2, 1), (0, 1, 1, 1)]"
    by code_simp
  from split_into_rects_keeps_argument [OF g, of "\<lambda>ps. 0"] r
  have "split_into_rects_heap (\<lambda>ps. 0) 0 [PyList [(0, 0), (1, 0), (0, 1)]]
     = Inr ([(0, 0, 2, 1), (0, 1, 1, 1)], [PyList [(0, 0), (1, 0), (0, 1)], PySet []])"
    by auto
  with g show ?thesis by (rule conjI)
qed

end
